theory Spec2Isabelle
  imports Complex_Main "HOL-Library.Log_Nat"
begin

section \<open>Time and durations\<close>

text \<open>
  Go's \<^verbatim>\<open>time.Duration\<close> is an \<^verbatim>\<open>int64\<close> count of nanoseconds; a \<^verbatim>\<open>time.Time\<close> taken with
  \<^verbatim>\<open>time.Now()\<close> carries a monotonic clock reading, also in nanoseconds.  Both are
  modelled as \<open>int\<close>; the places where the 64-bit width shows are written out:
  \<^verbatim>\<open>Duration(n) * time.Second\<close> wraps (\<open>wrap64\<close>) and \<^verbatim>\<open>t.Sub(u)\<close> saturates.
  Go's \<^verbatim>\<open>int\<close> is taken to be 64 bits wide.
\<close>

type_synonym Time = int
type_synonym Duration = int

definition minDuration :: Duration where
  "minDuration = - (2 ^ 63)"

definition maxDuration :: Duration where
  "maxDuration = 2 ^ 63 - 1"

definition wrap64 :: "int \<Rightarrow> int" where
  "wrap64 x = (x + 2 ^ 63) mod 2 ^ 64 - 2 ^ 63"

definition Second :: Duration where
  "Second = 1000000000"

text \<open>\<^verbatim>\<open>t.Sub(u)\<close>: the difference, or the nearest representable duration.\<close>

definition Sub :: "Time \<Rightarrow> Time \<Rightarrow> Duration" where
  "Sub t u = (if maxDuration < t - u then maxDuration
              else if t - u < minDuration then minDuration
              else t - u)"

section \<open>Fixed window limiter\<close>

record FixedWindow =
  count :: int
  maxRequests :: int
  windowStart :: Time
  windowPeriod :: Duration

definition NewFixedWindow :: "int \<Rightarrow> int \<Rightarrow> Time \<Rightarrow> FixedWindow" where
  "NewFixedWindow rate periodSeconds now =
     \<lparr>count = 0, maxRequests = rate, windowStart = now,
      windowPeriod = wrap64 (periodSeconds * Second)\<rparr>"

text \<open>
  \<^verbatim>\<open>FixedWindow.Allow\<close>, with the clock reading of \<^verbatim>\<open>time.Now()\<close> as an argument.
  The increment cannot overflow: it happens only below \<open>maxRequests\<close>.
\<close>

definition FixedWindow_Allow :: "FixedWindow \<Rightarrow> Time \<Rightarrow> bool \<times> FixedWindow" where
  "FixedWindow_Allow fw now =
     (let fw1 = (if windowPeriod fw \<le> Sub now (windowStart fw)
                 then fw\<lparr>windowStart := now, count := 0\<rparr> else fw)
      in if count fw1 < maxRequests fw1
         then (True, fw1\<lparr>count := count fw1 + 1\<rparr>)
         else (False, fw1))"

text \<open>A sequence of \<^verbatim>\<open>Allow()\<close> calls at the given clock readings; the answers in order.\<close>

fun FixedWindow_calls :: "FixedWindow \<Rightarrow> Time list \<Rightarrow> bool list" where
  "FixedWindow_calls fw [] = []"
| "FixedWindow_calls fw (t # ts) =
     fst (FixedWindow_Allow fw t) # FixedWindow_calls (snd (FixedWindow_Allow fw t)) ts"

section \<open>float64\<close>

text \<open>
  The token bucket computes in \<^verbatim>\<open>float64\<close>.  A value is a real number or one of the
  three special values; every operation computes exactly and then rounds to the nearest
  double, ties to even (\<open>round64\<close>).  The sign of zero is not kept: the program divides
  only by values converted from integers, which are never negative zero, and compares or
  adds everything else.  Operations round one at a time (no fused multiply-add).
\<close>

datatype float64 = Finite real | PInf | NInf | NaN

text \<open>Nearest integer, ties to the even one.\<close>

definition rne :: "real \<Rightarrow> int" where
  "rne y = (let f = \<lfloor>y\<rfloor>; d = y - of_int f
            in if d < 1 / 2 then f
               else if 1 / 2 < d then f + 1
               else if even f then f else f + 1)"

text \<open>The binary exponent of a positive number: \<open>2 ^ ilog2 x \<le> x < 2 ^ (ilog2 x + 1)\<close>.\<close>

definition ilog2 :: "real \<Rightarrow> int" where
  "ilog2 x = (if 1 \<le> x then int (floorlog 2 (nat \<lfloor>x\<rfloor>)) - 1
              else - int (floorlog 2 (nat (\<lceil>1 / x\<rceil> - 1))))"

text \<open>
  The exponent of the last place of the doubles around \<open>x\<close>: 53 significant bits, and
  \<open>2 ^ -1074\<close> for the subnormal numbers.
\<close>

definition quantum :: "real \<Rightarrow> int" where
  "quantum x = max (ilog2 x - 52) (- 1074)"

definition round_pos :: "real \<Rightarrow> real" where
  "round_pos x = of_int (rne (x / 2 powi quantum x)) * 2 powi quantum x"

definition round64 :: "real \<Rightarrow> float64" where
  "round64 x =
     (if x = 0 then Finite 0
      else if 2 ^ 1024 \<le> round_pos \<bar>x\<bar> then (if 0 < x then PInf else NInf)
      else Finite (sgn x * round_pos \<bar>x\<bar>))"

definition f64_of_int :: "int \<Rightarrow> float64" where
  "f64_of_int n = round64 (of_int n)"

fun f64_neg :: "float64 \<Rightarrow> float64" where
  "f64_neg (Finite a) = Finite (- a)"
| "f64_neg PInf = NInf"
| "f64_neg NInf = PInf"
| "f64_neg NaN = NaN"

fun f64_add :: "float64 \<Rightarrow> float64 \<Rightarrow> float64" where
  "f64_add (Finite a) (Finite b) = round64 (a + b)"
| "f64_add NaN y = NaN"
| "f64_add x NaN = NaN"
| "f64_add PInf NInf = NaN"
| "f64_add NInf PInf = NaN"
| "f64_add PInf y = PInf"
| "f64_add x PInf = PInf"
| "f64_add NInf y = NInf"
| "f64_add x NInf = NInf"

definition f64_sub :: "float64 \<Rightarrow> float64 \<Rightarrow> float64" where
  "f64_sub x y = f64_add x (f64_neg y)"

text \<open>The sign of a value that is not NaN: \<open>- 1\<close>, \<open>0\<close> or \<open>1\<close>.\<close>

fun f64_sgn :: "float64 \<Rightarrow> int" where
  "f64_sgn (Finite a) = (if a < 0 then - 1 else if a = 0 then 0 else 1)"
| "f64_sgn PInf = 1"
| "f64_sgn NInf = - 1"
| "f64_sgn NaN = 0"

definition f64_inf :: "int \<Rightarrow> float64" where
  "f64_inf s = (if s < 0 then NInf else if s = 0 then NaN else PInf)"

fun f64_mul :: "float64 \<Rightarrow> float64 \<Rightarrow> float64" where
  "f64_mul (Finite a) (Finite b) = round64 (a * b)"
| "f64_mul NaN y = NaN"
| "f64_mul x NaN = NaN"
| "f64_mul x y = f64_inf (f64_sgn x * f64_sgn y)"

fun f64_div :: "float64 \<Rightarrow> float64 \<Rightarrow> float64" where
  "f64_div (Finite a) (Finite b) =
     (if b = 0 then f64_inf (f64_sgn (Finite a)) else round64 (a / b))"
| "f64_div NaN y = NaN"
| "f64_div x NaN = NaN"
| "f64_div (Finite a) y = Finite 0"
| "f64_div x (Finite b) = f64_inf (f64_sgn x * (if b < 0 then - 1 else 1))"
| "f64_div x y = NaN"

fun f64_less :: "float64 \<Rightarrow> float64 \<Rightarrow> bool" where
  "f64_less (Finite a) (Finite b) = (a < b)"
| "f64_less NaN y = False"
| "f64_less x NaN = False"
| "f64_less x PInf = (x \<noteq> PInf)"
| "f64_less NInf y = (y \<noteq> NInf)"
| "f64_less x y = False"

fun f64_le :: "float64 \<Rightarrow> float64 \<Rightarrow> bool" where
  "f64_le (Finite a) (Finite b) = (a \<le> b)"
| "f64_le NaN y = False"
| "f64_le x NaN = False"
| "f64_le x PInf = True"
| "f64_le NInf y = True"
| "f64_le x y = False"

text \<open>
  \<^verbatim>\<open>Duration.Seconds\<close> of the standard library: the whole seconds and the remaining
  nanoseconds (Go's division truncates towards zero), each converted and then added.
\<close>

definition quo :: "int \<Rightarrow> int \<Rightarrow> int" where
  "quo a b = sgn a * sgn b * (\<bar>a\<bar> div \<bar>b\<bar>)"

definition rem :: "int \<Rightarrow> int \<Rightarrow> int" where
  "rem a b = a - b * quo a b"

definition Seconds :: "Duration \<Rightarrow> float64" where
  "Seconds d = f64_add (f64_of_int (quo d Second))
                       (f64_div (f64_of_int (rem d Second)) (Finite 1000000000))"

section \<open>Token bucket limiter\<close>

record TokenBucket =
  tokens :: float64
  maxTokens :: float64
  refillRate :: float64
  lastRefill :: Time

definition NewTokenBucket :: "int \<Rightarrow> int \<Rightarrow> Time \<Rightarrow> TokenBucket" where
  "NewTokenBucket rate periodSeconds now =
     (let maxTokens = f64_of_int rate;
          refillRate = f64_div (f64_of_int rate) (f64_of_int periodSeconds)
      in \<lparr>tokens = maxTokens, maxTokens = maxTokens, refillRate = refillRate,
          lastRefill = now\<rparr>)"

text \<open>\<^verbatim>\<open>TokenBucket.Allow\<close>, with the clock reading of \<^verbatim>\<open>time.Now()\<close> as an argument.\<close>

definition TokenBucket_Allow :: "TokenBucket \<Rightarrow> Time \<Rightarrow> bool \<times> TokenBucket" where
  "TokenBucket_Allow tb now =
     (let elapsed = Seconds (Sub now (lastRefill tb));
          tb1 = tb\<lparr>lastRefill := now\<rparr>;
          tb2 = tb1\<lparr>tokens := f64_add (tokens tb1) (f64_mul elapsed (refillRate tb1))\<rparr>;
          tb3 = (if f64_less (maxTokens tb2) (tokens tb2)
                 then tb2\<lparr>tokens := maxTokens tb2\<rparr> else tb2)
      in if f64_le (Finite 1) (tokens tb3)
         then (True, tb3\<lparr>tokens := f64_sub (tokens tb3) (Finite 1)\<rparr>)
         else (False, tb3))"

fun TokenBucket_calls :: "TokenBucket \<Rightarrow> Time list \<Rightarrow> bool list" where
  "TokenBucket_calls tb [] = []"
| "TokenBucket_calls tb (t # ts) =
     fst (TokenBucket_Allow tb t) # TokenBucket_calls (snd (TokenBucket_Allow tb t)) ts"

text \<open>The state after a sequence of \<^verbatim>\<open>Allow()\<close> calls at the given clock readings.\<close>

fun TokenBucket_after :: "TokenBucket \<Rightarrow> Time list \<Rightarrow> TokenBucket" where
  "TokenBucket_after tb [] = tb"
| "TokenBucket_after tb (t # ts) = TokenBucket_after (snd (TokenBucket_Allow tb t)) ts"

text \<open>
  A token bucket in good state: the three numbers are finite, the tokens lie between 0 and
  the maximum, the maximum is a double and the refill rate is not negative.
\<close>

definition TokenBucket_ok :: "TokenBucket \<Rightarrow> bool" where
  "TokenBucket_ok tb =
     (case (tokens tb, maxTokens tb, refillRate tb) of
        (Finite t, Finite m, Finite \<rho>) \<Rightarrow>
          0 \<le> t \<and> t \<le> m \<and> round_pos m = m \<and> m \<le> 2 ^ 63 \<and> 0 \<le> \<rho> \<and> \<rho> \<le> 2 ^ 63
      | _ \<Rightarrow> False)"

section \<open>Rate limit directive and limiter key\<close>

record Resource =
  Kind :: string

record Config =
  Method :: string
  Rate :: int
  Period :: int
  TTL :: int
  Resource :: Resource

definition MethodTokenBucket :: string where
  "MethodTokenBucket = ''token_bucket''"

definition MethodFixedWindow :: string where
  "MethodFixedWindow = ''fixed_window''"

definition ResourceKindDomainPath :: string where
  "ResourceKindDomainPath = ''domain_path''"

definition ResourceKindDomain :: string where
  "ResourceKindDomain = ''domain''"

definition DefaultTTL :: Duration where
  "DefaultTTL = 5 * (60 * Second)"

definition GetTTL :: "Config \<Rightarrow> Duration" where
  "GetTTL c = (if TTL c \<le> 0 then DefaultTTL else wrap64 (TTL c * Second))"

definition ExtractResourceKey :: "string \<Rightarrow> string \<Rightarrow> string \<Rightarrow> string" where
  "ExtractResourceKey host path kind =
     (if kind = ResourceKindDomainPath then host @ path
      else if kind = ResourceKindDomain then host
      else host)"

text \<open>The verb \<^verbatim>\<open>%d\<close> of \<^verbatim>\<open>fmt.Sprintf\<close>: decimal digits, with a minus sign below zero.\<close>

definition digit :: "nat \<Rightarrow> char" where
  "digit d = ''0123456789'' ! d"

fun digits :: "nat \<Rightarrow> string" where
  "digits n = (if n < 10 then [digit n] else digits (n div 10) @ [digit (n mod 10)])"

definition fmt_d :: "int \<Rightarrow> string" where
  "fmt_d i = (if i < 0 then CHR ''-'' # digits (nat (- i)) else digits (nat i))"

definition buildKey :: "string \<Rightarrow> string \<Rightarrow> Config \<Rightarrow> string" where
  "buildKey egressIP resourceKey cfg =
     egressIP @ ''|'' @ resourceKey @ ''|'' @ Method cfg @ ''|'' @ fmt_d (Rate cfg) @ ''|'' @
     fmt_d (Period cfg)"

section \<open>Rate limiter store\<close>

text \<open>
  A \<^verbatim>\<open>Limiter\<close> is an interface value holding a pointer to a token bucket or to a fixed
  window.  The pointers are references into a heap of limiter objects, so that "the same
  instance" is "the same reference"; a new object gets a reference never given out before.
\<close>

datatype Limiter = TokenBucketOf TokenBucket | FixedWindowOf FixedWindow

type_synonym ref = nat

record Heap =
  objects :: "ref \<rightharpoonup> Limiter"
  nextRef :: ref

definition emptyHeap :: Heap where
  "emptyHeap = \<lparr>objects = Map.empty, nextRef = 0\<rparr>"

definition new :: "Heap \<Rightarrow> Limiter \<Rightarrow> ref \<times> Heap" where
  "new h v = (nextRef h, h\<lparr>objects := (objects h)(nextRef h \<mapsto> v), nextRef := Suc (nextRef h)\<rparr>)"

record limiterEntry =
  limiter :: ref
  lastUsed :: Time
  ttl :: Duration

record Store =
  limiters :: "string \<rightharpoonup> limiterEntry"

definition NewStore :: Store where
  "NewStore = \<lparr>limiters = Map.empty\<rparr>"

text \<open>
  \<^verbatim>\<open>Store.cleanup\<close> at clock reading \<open>now\<close>: every entry is looked at on its own and deleted
  when \<open>now - lastUsed > ttl\<close>.
\<close>

definition cleanup :: "Store \<Rightarrow> Time \<Rightarrow> Store" where
  "cleanup s now =
     s\<lparr>limiters := (\<lambda>key. case limiters s key of
                               None \<Rightarrow> None
                             | Some entry \<Rightarrow>
                                 if ttl entry < Sub now (lastUsed entry) then None
                                 else Some entry)\<rparr>"

text \<open>
  \<^verbatim>\<open>Store.GetOrCreate\<close>, run without interleaving: the lookup under the read lock and the
  second lookup under the write lock see the same map, so one lookup stands for both.
  \<open>now\<close> is the clock reading taken on entry, \<open>now'\<close> the later one taken by the
  constructor of a new limiter.
\<close>

definition GetOrCreate ::
  "Store \<Rightarrow> Heap \<Rightarrow> string \<Rightarrow> string \<Rightarrow> Config \<Rightarrow> Time \<Rightarrow> Time \<Rightarrow> ref \<times> Store \<times> Heap" where
  "GetOrCreate s h egressIP resourceKey cfg now now' =
     (let key = buildKey egressIP resourceKey cfg
      in case limiters s key of
           Some entry \<Rightarrow>
             (limiter entry, s\<lparr>limiters := (limiters s)(key \<mapsto> entry\<lparr>lastUsed := now\<rparr>)\<rparr>, h)
         | None \<Rightarrow>
             (let l = (if Method cfg = MethodTokenBucket
                       then TokenBucketOf (NewTokenBucket (Rate cfg) (Period cfg) now')
                       else if Method cfg = MethodFixedWindow
                       then FixedWindowOf (NewFixedWindow (Rate cfg) (Period cfg) now')
                       else TokenBucketOf (NewTokenBucket (Rate cfg) (Period cfg) now'));
                  (r, h') = new h l
              in (r, s\<lparr>limiters := (limiters s)(key \<mapsto>
                          \<lparr>limiter = r, lastUsed = now, ttl = GetTTL cfg\<rparr>)\<rparr>, h')))"

text \<open>\<^verbatim>\<open>limiter.Allow()\<close> on the object a reference points to.\<close>

definition Limiter_Allow :: "Heap \<Rightarrow> ref \<Rightarrow> Time \<Rightarrow> bool \<times> Heap" where
  "Limiter_Allow h r now =
     (case objects h r of
        Some (TokenBucketOf tb) \<Rightarrow>
          (fst (TokenBucket_Allow tb now),
           h\<lparr>objects := (objects h)(r \<mapsto> TokenBucketOf (snd (TokenBucket_Allow tb now)))\<rparr>)
      | Some (FixedWindowOf fw) \<Rightarrow>
          (fst (FixedWindow_Allow fw now),
           h\<lparr>objects := (objects h)(r \<mapsto> FixedWindowOf (snd (FixedWindow_Allow fw now)))\<rparr>)
      | None \<Rightarrow> (False, h))"

section \<open>Hop-by-hop headers\<close>

text \<open>
  An \<^verbatim>\<open>http.Header\<close> maps a header name to its values.  \<^verbatim>\<open>Get\<close> and \<^verbatim>\<open>Del\<close> look the name
  up in canonical form; \<open>canon\<close> stands for \<^verbatim>\<open>textproto.CanonicalMIMEHeaderKey\<close> and \<open>trim\<close>
  for \<^verbatim>\<open>strings.TrimSpace\<close> of the standard library.
\<close>

type_synonym Header = "string \<rightharpoonup> string list"

definition Header_Get :: "(string \<Rightarrow> string) \<Rightarrow> Header \<Rightarrow> string \<Rightarrow> string" where
  "Header_Get canon h key =
     (case h (canon key) of None \<Rightarrow> [] | Some [] \<Rightarrow> [] | Some (v # vs) \<Rightarrow> v)"

definition Header_Del :: "(string \<Rightarrow> string) \<Rightarrow> Header \<Rightarrow> string \<Rightarrow> Header" where
  "Header_Del canon h key = h(canon key := None)"

text \<open>\<^verbatim>\<open>strings.Split\<close> at a one-character separator.\<close>

fun Split :: "char \<Rightarrow> string \<Rightarrow> string list" where
  "Split c [] = [[]]"
| "Split c (x # xs) =
     (if x = c then [] # Split c xs
      else (case Split c xs of [] \<Rightarrow> [[x]] | ys # yss \<Rightarrow> (x # ys) # yss))"

definition hopByHopHeaders :: "string list" where
  "hopByHopHeaders =
     [''Connection'', ''Keep-Alive'', ''Proxy-Authenticate'', ''Proxy-Authorization'',
      ''Te'', ''Trailer'', ''Transfer-Encoding'', ''Upgrade'']"

definition removeHopByHopHeaders ::
  "(string \<Rightarrow> string) \<Rightarrow> (string \<Rightarrow> string) \<Rightarrow> Header \<Rightarrow> Header" where
  "removeHopByHopHeaders canon trim h =
     (let c = Header_Get canon h ''Connection'';
          h1 = (if c \<noteq> []
                then fold (\<lambda>f h'. Header_Del canon h' (trim f)) (Split CHR '','' c) h
                else h)
      in fold (\<lambda>hdr h'. Header_Del canon h' hdr) hopByHopHeaders h1)"

section \<open>Egress addresses\<close>

text \<open>
  What the handlers take from outside the repository is gathered in one record: the
  functions of package \<^verbatim>\<open>net\<close> on addresses of some type \<open>'ip\<close>, the interfaces of the
  host as \<^verbatim>\<open>net.Interfaces()\<close> lists them (\<open>None\<close> for its error), the natural number
  behind \<^verbatim>\<open>rand.Intn\<close> (\<^verbatim>\<open>rand.Intn(n)\<close> is that number modulo \<open>n\<close>, any index below \<open>n\<close>),
  and \<^verbatim>\<open>json.Unmarshal\<close> into a rate limit directive (\<open>None\<close> for its error).
\<close>

datatype 'ip Addr = IPNet 'ip | IPAddr 'ip | OtherAddr

record 'ip Interface =
  Name :: string
  FlagUp :: bool
  Addrs :: "'ip Addr list option"

record 'ip Env =
  ParseIP :: "string \<Rightarrow> 'ip option"
  Interfaces :: "'ip Interface list option"
  Equal :: "'ip \<Rightarrow> 'ip \<Rightarrow> bool"
  IsLinkLocalUnicast :: "'ip \<Rightarrow> bool"
  IsLinkLocalMulticast :: "'ip \<Rightarrow> bool"
  IsLoopback :: "'ip \<Rightarrow> bool"
  To4 :: "'ip \<Rightarrow> 'ip option"
  IPString :: "'ip \<Rightarrow> string"
  rand :: nat
  Unmarshal :: "string \<Rightarrow> Config option"

record config_Config =
  AllowedInterfaces :: "string list"

record IPInfo =
  Interface :: string
  IP :: string
  Version :: int

text \<open>The address of an interface address, when it is one of the two kinds the code reads.\<close>

fun addrIP :: "'ip Addr \<Rightarrow> 'ip option" where
  "addrIP (IPNet ip) = Some ip"
| "addrIP (IPAddr ip) = Some ip"
| "addrIP OtherAddr = None"

definition GetAvailableIPs :: "'ip Env \<Rightarrow> config_Config \<Rightarrow> IPInfo list option" where
  "GetAvailableIPs env c =
     (case Interfaces env of
        None \<Rightarrow> None
      | Some interfaces \<Rightarrow>
          Some (concat (map (\<lambda>iface.
            if Name iface \<notin> set (AllowedInterfaces c) then []
            else if \<not> FlagUp iface then []
            else (case Addrs iface of
                    None \<Rightarrow> []
                  | Some addrs \<Rightarrow>
                      concat (map (\<lambda>addr.
                        case addrIP addr of
                          None \<Rightarrow> []
                        | Some ip \<Rightarrow>
                            if IsLinkLocalUnicast env ip \<or> IsLinkLocalMulticast env ip then []
                            else if IsLoopback env ip then []
                            else [\<lparr>Interface = Name iface, IP = IPString env ip,
                                   Version = (if To4 env ip = None then 6 else 4)\<rparr>]) addrs)))
            interfaces)))"

definition IsIPAllowed :: "'ip Env \<Rightarrow> config_Config \<Rightarrow> string \<Rightarrow> bool" where
  "IsIPAllowed env c ipStr =
     (case ParseIP env ipStr of
        None \<Rightarrow> False
      | Some ip \<Rightarrow>
          (case Interfaces env of
             None \<Rightarrow> False
           | Some interfaces \<Rightarrow>
               list_ex (\<lambda>iface.
                 Name iface \<in> set (AllowedInterfaces c) \<and>
                 (case Addrs iface of
                    None \<Rightarrow> False
                  | Some addrs \<Rightarrow>
                      list_ex (\<lambda>addr.
                        case addrIP addr of
                          None \<Rightarrow> False
                        | Some ifaceIP \<Rightarrow> Equal env ifaceIP ip) addrs))
                 interfaces))"

section \<open>Proxy dispatcher\<close>

definition StatusBadRequest :: nat where
  "StatusBadRequest = 400"

definition StatusForbidden :: nat where
  "StatusForbidden = 403"

definition StatusTooManyRequests :: nat where
  "StatusTooManyRequests = 429"

definition StatusInternalServerError :: nat where
  "StatusInternalServerError = 500"

definition StatusServiceUnavailable :: nat where
  "StatusServiceUnavailable = 503"

text \<open>
  The parts of a request that \<^verbatim>\<open>handleProxy\<close> reads.  The two header fields hold what
  \<^verbatim>\<open>r.Header.Get\<close> returns: the first value of the header, or the empty string when the
  header is absent.
\<close>

record Request =
  ReqMethod :: string
  Host :: string
  Path :: string
  X_Egress_IP :: string
  X_Rate_Limit :: string

text \<open>
  What a request comes to: an error response (\<^verbatim>\<open>http.Error\<close> with a status, after the
  response headers set before it), or the call of one of the two forwarding handlers with
  the local address to bind.
\<close>

datatype 'ip Outcome =
  Error nat "(string \<times> string) list"
  | handleConnect 'ip
  | handleHTTPProxy 'ip

text \<open>
  The first part of \<^verbatim>\<open>handleProxy\<close> (up to the parsed local address): the status of the
  error response, or the egress address as a string and parsed.
\<close>

definition handleProxy_egress ::
  "'ip Env \<Rightarrow> config_Config option \<Rightarrow> Request \<Rightarrow> nat + string \<times> 'ip" where
  "handleProxy_egress env config r =
     (let parse = (\<lambda>egressIP. case ParseIP env egressIP of
                                 None \<Rightarrow> Inl StatusBadRequest
                               | Some localIP \<Rightarrow> Inr (egressIP, localIP))
      in if X_Egress_IP r = [] then
           (case config of
              None \<Rightarrow> Inl StatusInternalServerError
            | Some c \<Rightarrow>
                (case GetAvailableIPs env c of
                   None \<Rightarrow> Inl StatusInternalServerError
                 | Some ips \<Rightarrow>
                     if length ips = 0 then Inl StatusInternalServerError
                     else parse (IP (ips ! (rand env mod length ips)))))
         else
           (case config of
              None \<Rightarrow> parse (X_Egress_IP r)
            | Some c \<Rightarrow>
                if \<not> IsIPAllowed env c (X_Egress_IP r) then Inl StatusForbidden
                else parse (X_Egress_IP r)))"

text \<open>
  \<^verbatim>\<open>handleProxy\<close> on the process-wide store.  The three clock readings are those of
  \<^verbatim>\<open>GetOrCreate\<close>, of the constructor of a new limiter and of \<^verbatim>\<open>Allow\<close>, in this order.
\<close>

definition handleProxy ::
  "'ip Env \<Rightarrow> config_Config option \<Rightarrow> Store \<Rightarrow> Heap \<Rightarrow> Time \<Rightarrow> Time \<Rightarrow> Time \<Rightarrow> Request \<Rightarrow>
   'ip Outcome \<times> Store \<times> Heap" where
  "handleProxy env config s h now now' now'' r =
     (case handleProxy_egress env config r of
        Inl status \<Rightarrow> (Error status [], s, h)
      | Inr (egressIP, localIP) \<Rightarrow>
          (let dispatch = (if ReqMethod r = ''CONNECT'' then handleConnect localIP
                           else handleHTTPProxy localIP)
           in if X_Rate_Limit r \<noteq> [] then
                (case Unmarshal env (X_Rate_Limit r) of
                   None \<Rightarrow> (Error StatusBadRequest [], s, h)
                 | Some rlConfig \<Rightarrow>
                     (let path = (if ReqMethod r = ''CONNECT'' then [] else Path r);
                          resourceKey = ExtractResourceKey (Host r) path (Kind (Resource rlConfig));
                          (l, s', h') = GetOrCreate s h egressIP resourceKey rlConfig now now';
                          (ok, h'') = Limiter_Allow h' l now''
                      in if \<not> ok
                         then (Error StatusTooManyRequests
                                 [(''X-RateLimit-Source'', ''specificproxy'')], s', h'')
                         else (dispatch, s', h'')))
              else (dispatch, s, h)))"

section \<open>Invariants and example values\<close>

text \<open>
  The store and the heap fit together when every reference held by an entry has been
  handed out, and no two keys hold the same reference.
\<close>

definition store_ok :: "Store \<Rightarrow> Heap \<Rightarrow> bool" where
  "store_ok s h \<longleftrightarrow>
     (\<forall>k e. limiters s k = Some e \<longrightarrow> limiter e < nextRef h) \<and>
     (\<forall>k k' e e'. limiters s k = Some e \<longrightarrow> limiters s k' = Some e' \<longrightarrow>
        limiter e = limiter e' \<longrightarrow> k = k')"

text \<open>A directive and a store with a single entry, for the examples.\<close>

definition directive :: Config where
  "directive = \<lparr>Method = ''token_bucket'', Rate = 10, Period = 60, TTL = 1,
                Resource = \<lparr>Kind = ''domain''\<rparr>\<rparr>"

definition oneEntry :: "string \<Rightarrow> limiterEntry \<Rightarrow> Store" where
  "oneEntry key entry = \<lparr>limiters = Map.empty(key \<mapsto> entry)\<rparr>"

text \<open>
  The header of the repository's test, and the header of a response that came with two
  \<^verbatim>\<open>Connection\<close> lines; the two functions take the values the library functions have on the
  strings that occur.
\<close>

definition testHeader :: Header where
  "testHeader = [''Connection'' \<mapsto> [''keep-alive, X-Custom''],
                 ''Keep-Alive'' \<mapsto> [''timeout=5''],
                 ''X-Custom'' \<mapsto> [''value''],
                 ''Content-Type'' \<mapsto> [''application/json'']]"

definition twoConnections :: Header where
  "twoConnections = [''Connection'' \<mapsto> [''keep-alive'', ''X-Foo''],
                     ''Keep-Alive'' \<mapsto> [''timeout=5''],
                     ''X-Foo'' \<mapsto> [''v'']]"

definition testCanon :: "string \<Rightarrow> string" where
  "testCanon s = (if s = ''keep-alive'' then ''Keep-Alive'' else s)"

definition testTrim :: "string \<Rightarrow> string" where
  "testTrim s = rev (dropWhile (\<lambda>c. c = CHR '' '') (rev (dropWhile (\<lambda>c. c = CHR '' '') s)))"

text \<open>A host for the examples: one interface that is up, with two addresses.\<close>

definition hostEnv :: "nat Env" where
  "hostEnv =
     \<lparr>ParseIP = (\<lambda>s. if s = ''10.0.0.1'' then Some 1
                      else if s = ''10.0.0.2'' then Some 2
                      else if s = ''10.255.255.255'' then Some 3
                      else None),
      Interfaces = Some [\<lparr>Name = ''eth0'', FlagUp = True, Addrs = Some [IPNet 1, IPNet 2]\<rparr>],
      Equal = (\<lambda>a b. a = b),
      IsLinkLocalUnicast = (\<lambda>a. False),
      IsLinkLocalMulticast = (\<lambda>a. False),
      IsLoopback = (\<lambda>a. False),
      To4 = (\<lambda>a. Some a),
      IPString = (\<lambda>a. if a = 1 then ''10.0.0.1'' else if a = 2 then ''10.0.0.2''
                        else ''10.255.255.255''),
      rand = 7,
      Unmarshal = (\<lambda>s. None)\<rparr>"

definition request :: "string \<Rightarrow> Request" where
  "request egress =
     \<lparr>ReqMethod = ''GET'', Host = ''example.com'', Path = ''/'', X_Egress_IP = egress,
      X_Rate_Limit = []\<rparr>"

section \<open>Properties of the rounding\<close>

lemma pow2_less_iff: "(2::real) powi a < 2 powi b \<longleftrightarrow> a < b"
proof
  assume "(2::real) powi a < 2 powi b"
  show "a < b"
  proof (rule ccontr)
    assume "\<not> a < b"
    then have "b \<le> a" by simp
    then have "(2::real) powi b \<le> 2 powi a"
      by (intro power_int_increasing) simp_all
    with \<open>(2::real) powi a < 2 powi b\<close> show False by simp
  qed
next
  assume "a < b"
  then show "(2::real) powi a < 2 powi b"
    by (intro power_int_strict_increasing) simp_all
qed

lemma pow2_le_iff: "(2::real) powi a \<le> 2 powi b \<longleftrightarrow> a \<le> b"
  using pow2_less_iff [of b a] by (simp add: not_less [symmetric])

lemma pow2_pos: "0 < (2::real) powi a"
  by simp

lemma pow2_add: "(2::real) powi (a + b) = 2 powi a * 2 powi b"
  by (simp add: power_int_add)

lemma pow2_diff: "(2::real) powi (a - b) = 2 powi a / 2 powi b"
  by (simp add: power_int_diff)

lemma pow2_nat: "0 \<le> a \<Longrightarrow> (2::real) powi a = of_int (2 ^ nat a)"
  by (simp add: power_int_def)

lemma ilog2_lower: assumes "0 < x" shows "2 powi ilog2 x \<le> x"
proof (cases "1 \<le> x")
  case True
  define n where "n = nat \<lfloor>x\<rfloor>"
  define k where "k = floorlog 2 n"
  have n: "0 < n" using True by (simp add: n_def)
  have b: "2 ^ (k - 1) \<le> n"
    using floorlog_bounds [of n 2] n by (simp add: k_def)
  have k: "0 < k"
    using n by (simp add: k_def floorlog_def)
  have "ilog2 x = int (k - 1)"
    using True k by (simp add: ilog2_def n_def k_def)
  then have "2 powi ilog2 x = (2::real) ^ (k - 1)"
    by simp
  also have "\<dots> = real (2 ^ (k - 1))" by simp
  also have "\<dots> \<le> real n" using b by (simp only: of_nat_le_iff)
  also have "\<dots> = of_int \<lfloor>x\<rfloor>" using True by (simp add: n_def)
  also have "\<dots> \<le> x" by simp
  finally show ?thesis .
next
  case False
  define m where "m = \<lceil>1 / x\<rceil>"
  define j where "j = nat (m - 1)"
  define k where "k = floorlog 2 j"
  have x1: "x < 1" using False by simp
  have "1 < 1 / x" using assms x1 by simp
  then have m: "2 \<le> m" unfolding m_def by (simp add: le_ceiling_iff)
  then have j: "0 < j" by (simp add: j_def)
  have b: "j < 2 ^ k"
    using floorlog_bounds [of j 2] j by (simp add: k_def)
  then have "int j + 1 \<le> 2 ^ k"
    by (metis Suc_leI of_nat_Suc of_nat_le_iff of_nat_numeral of_nat_power add.commute plus_1_eq_Suc of_nat_add of_nat_1)
  then have "m \<le> 2 ^ k" using m by (simp add: j_def)
  then have A: "(of_int m :: real) \<le> 2 ^ k"
    by (metis of_int_le_iff of_int_numeral of_int_power)
  have B: "1 / x \<le> of_int m" by (simp add: m_def)
  from B A have "1 / x \<le> 2 ^ k" by (rule order_trans)
  then have "1 / 2 ^ k \<le> x"
    using assms by (simp add: field_simps)
  moreover have "ilog2 x = - int k"
    using False by (simp add: ilog2_def m_def j_def k_def)
  ultimately show ?thesis
    by (simp add: power_int_minus_divide)
qed

lemma ilog2_upper: assumes "0 < x" shows "x < 2 powi (ilog2 x + 1)"
proof (cases "1 \<le> x")
  case True
  define n where "n = nat \<lfloor>x\<rfloor>"
  define k where "k = floorlog 2 n"
  have n: "0 < n" using True by (simp add: n_def)
  have b: "n < 2 ^ k"
    using floorlog_bounds [of n 2] n by (simp add: k_def)
  have k: "0 < k"
    using n by (simp add: k_def floorlog_def)
  have "ilog2 x + 1 = int k"
    using True k by (simp add: ilog2_def n_def k_def)
  then have e: "2 powi (ilog2 x + 1) = (2::real) ^ k"
    by simp
  have "\<lfloor>x\<rfloor> = int n" using True by (simp add: n_def)
  moreover have "int n + 1 \<le> 2 ^ k"
    using b by (metis Suc_leI of_nat_Suc of_nat_le_iff of_nat_numeral of_nat_power add.commute plus_1_eq_Suc of_nat_add of_nat_1)
  ultimately have "\<lfloor>x\<rfloor> + 1 \<le> 2 ^ k" by simp
  then have "(of_int (\<lfloor>x\<rfloor> + 1) :: real) \<le> 2 ^ k"
    by (metis of_int_le_iff of_int_numeral of_int_power)
  moreover have "x < of_int (\<lfloor>x\<rfloor> + 1)" by linarith
  ultimately show ?thesis unfolding e by linarith
next
  case False
  define m where "m = \<lceil>1 / x\<rceil>"
  define j where "j = nat (m - 1)"
  define k where "k = floorlog 2 j"
  have x1: "x < 1" using False by simp
  have "1 < 1 / x" using assms x1 by simp
  then have m: "2 \<le> m" unfolding m_def by (simp add: le_ceiling_iff)
  then have j: "0 < j" by (simp add: j_def)
  have k: "0 < k"
    using j by (simp add: k_def floorlog_def)
  have b: "2 ^ (k - 1) \<le> j"
    using floorlog_bounds [of j 2] j by (simp add: k_def)
  then have "(2::real) ^ (k - 1) \<le> real j"
    by (metis of_nat_le_iff of_nat_numeral of_nat_power)
  also have "real j = of_int (m - 1)" using m by (simp add: j_def)
  also have "\<dots> < 1 / x" unfolding m_def by linarith
  finally have "(2::real) ^ (k - 1) < 1 / x" .
  then have "x < 1 / 2 ^ (k - 1)"
    using assms by (simp add: field_simps)
  moreover have "ilog2 x + 1 = - int (k - 1)"
    using False k by (simp add: ilog2_def m_def j_def k_def)
  ultimately show ?thesis
    by (simp add: power_int_minus_divide)
qed

lemma ilog2_unique:
  assumes "0 < x" and "2 powi e \<le> x" and "x < 2 powi (e + 1)"
  shows "ilog2 x = e"
proof -
  have "(2::real) powi e < 2 powi (ilog2 x + 1)"
    using assms(2) ilog2_upper [OF assms(1)] by linarith
  then have 1: "e < ilog2 x + 1" by (simp only: pow2_less_iff)
  have "(2::real) powi ilog2 x < 2 powi (e + 1)"
    using assms(3) ilog2_lower [OF assms(1)] by linarith
  then have 2: "ilog2 x < e + 1" by (simp only: pow2_less_iff)
  from 1 2 show ?thesis by simp
qed

lemma ilog2_mono: assumes "0 < x" and "x \<le> y" shows "ilog2 x \<le> ilog2 y"
proof -
  have y: "0 < y" using assms by simp
  have "(2::real) powi ilog2 x < 2 powi (ilog2 y + 1)"
    using ilog2_lower [OF assms(1)] ilog2_upper [OF y] assms(2) by linarith
  then have "ilog2 x < ilog2 y + 1" by (simp only: pow2_less_iff)
  then show ?thesis by simp
qed

lemma quantum_mono: "0 < x \<Longrightarrow> x \<le> y \<Longrightarrow> quantum x \<le> quantum y"
  using ilog2_mono [of x y] by (simp add: quantum_def)

lemma rne_of_int: "rne (of_int n) = n"
  by (simp add: rne_def)

lemma rne_bounds: "\<lfloor>y\<rfloor> \<le> rne y \<and> rne y \<le> \<lfloor>y\<rfloor> + 1"
  by (simp add: rne_def Let_def)

lemma rne_mono: assumes "x \<le> y" shows "rne x \<le> rne y"
proof (cases "\<lfloor>x\<rfloor> = \<lfloor>y\<rfloor>")
  case True
  have "x - of_int \<lfloor>x\<rfloor> \<le> y - of_int \<lfloor>x\<rfloor>"
    using assms by simp
  then show ?thesis
    unfolding rne_def Let_def True [symmetric] by auto
next
  case False
  have "\<lfloor>x\<rfloor> \<le> \<lfloor>y\<rfloor>"
    using assms by (rule floor_mono)
  with False have "\<lfloor>x\<rfloor> + 1 \<le> \<lfloor>y\<rfloor>" by simp
  with rne_bounds [of x] rne_bounds [of y] show ?thesis by linarith
qed

lemma rne_le_int: "y \<le> of_int n \<Longrightarrow> rne y \<le> n"
  using rne_mono [of y "of_int n"] by (simp add: rne_of_int)

lemma rne_ge_int: "of_int n \<le> y \<Longrightarrow> n \<le> rne y"
  using rne_mono [of "of_int n" y] by (simp add: rne_of_int)

lemma rne_nonneg: "0 \<le> y \<Longrightarrow> 0 \<le> rne y"
  using rne_ge_int [of 0 y] by simp

lemma round_pos_0: "round_pos 0 = 0"
  by (simp add: round_pos_def rne_def)

lemma round_pos_nonneg: "0 \<le> x \<Longrightarrow> 0 \<le> round_pos x"
  unfolding round_pos_def by (intro mult_nonneg_nonneg) (simp_all add: rne_nonneg)

lemma round_pos_fix:
  assumes "x / 2 powi quantum x = of_int n"
  shows "round_pos x = x"
proof -
  have "round_pos x = of_int n * 2 powi quantum x"
    unfolding round_pos_def assms rne_of_int ..
  also have "\<dots> = x / 2 powi quantum x * 2 powi quantum x"
    by (simp only: assms)
  also have "\<dots> = x" by simp
  finally show ?thesis .
qed

lemma quantum_ge: "- 1074 \<le> quantum x" "ilog2 x - 52 \<le> quantum x"
  by (simp_all add: quantum_def)

lemma round_pos_repr:
  assumes n: "0 < n" "n \<le> 2 ^ 53" and k: "- 1074 \<le> k"
  shows "round_pos (of_int n * 2 powi k) = of_int n * 2 powi k"
proof -
  define y :: real where "y = of_int n * 2 powi k"
  have y: "0 < y" using n by (simp add: y_def)
  show ?thesis
  proof (cases "n = 2 ^ 53")
    case True
    have yp: "y = 2 powi (53 + k)"
      by (simp add: y_def True pow2_add)
    have "ilog2 y = 53 + k"
      by (rule ilog2_unique [OF y]) (simp_all add: yp pow2_le_iff pow2_less_iff)
    then have q: "quantum y = k + 1"
      using k by (simp add: quantum_def)
    have "y / 2 powi quantum y = y / 2 powi (k + 1)"
      by (simp only: q)
    also have "\<dots> = 2 powi (53 + k - (k + 1))"
      by (simp only: yp pow2_diff)
    also have "\<dots> = of_int (2 ^ 52)" by simp
    finally have "round_pos y = y" by (rule round_pos_fix)
    then show ?thesis by (simp only: y_def)
  next
    case False
    with n have "n < 2 ^ 53" by simp
    then have "(of_int n :: real) < of_int (2 ^ 53)"
      by (simp only: of_int_less_iff)
    then have "y < 2 ^ 53 * 2 powi k"
      unfolding y_def by (intro mult_strict_right_mono) simp_all
    also have "\<dots> = 2 powi (53 + k)" by (simp add: pow2_add)
    finally have "y < 2 powi (53 + k)" .
    with ilog2_lower [OF y] have "(2::real) powi ilog2 y < 2 powi (53 + k)"
      by linarith
    then have "ilog2 y < 53 + k" by (simp only: pow2_less_iff)
    then have q: "quantum y \<le> k"
      using k by (simp add: quantum_def)
    have "y / 2 powi quantum y = of_int n * 2 powi (k - quantum y)"
      by (simp add: y_def pow2_diff)
    also have "\<dots> = of_int n * of_int (2 ^ nat (k - quantum y))"
      using q by (simp only: pow2_nat)
    also have "\<dots> = of_int (n * 2 ^ nat (k - quantum y))"
      by (simp only: of_int_mult)
    finally have "round_pos y = y" by (rule round_pos_fix)
    then show ?thesis by (simp only: y_def)
  qed
qed

lemma round_pos_int: "0 \<le> n \<Longrightarrow> n \<le> 2 ^ 53 \<Longrightarrow> round_pos (of_int n) = of_int n"
  using round_pos_repr [of n 0] round_pos_0 by (cases "n = 0") simp_all

lemma round_pos_pow2: "- 1074 \<le> k \<Longrightarrow> round_pos (2 powi k) = 2 powi k"
  using round_pos_repr [of 1 k] by simp

lemma round_pos_form:
  assumes "0 < x"
  shows "\<exists>n. round_pos x = of_int n * 2 powi quantum x \<and> 0 \<le> n \<and> n \<le> 2 ^ 53"
proof -
  define q where "q = quantum x"
  have "ilog2 x + 1 \<le> q + 53"
    using quantum_ge(2) [of x] by (simp add: q_def)
  then have "(2::real) powi (ilog2 x + 1) \<le> 2 powi (q + 53)"
    by (simp only: pow2_le_iff)
  with ilog2_upper [OF assms] have "x < 2 powi (q + 53)" by linarith
  also have "\<dots> = 2 powi q * 2 ^ 53" by (simp add: pow2_add)
  finally have "x / 2 powi q < 2 ^ 53"
    by (simp add: field_simps)
  then have "x / 2 powi q \<le> of_int (2 ^ 53)" by simp
  then have "rne (x / 2 powi q) \<le> 2 ^ 53" by (rule rne_le_int)
  moreover have "0 \<le> rne (x / 2 powi q)"
    using assms by (intro rne_nonneg) simp
  ultimately show ?thesis
    unfolding round_pos_def q_def by blast
qed

lemma round_pos_idem: assumes "0 \<le> x" shows "round_pos (round_pos x) = round_pos x"
proof (cases "x = 0")
  case True
  then show ?thesis by (simp add: round_pos_0)
next
  case False
  with assms have "0 < x" by simp
  from round_pos_form [OF this] obtain n
    where n: "round_pos x = of_int n * 2 powi quantum x" "0 \<le> n" "n \<le> 2 ^ 53"
    by blast
  show ?thesis
  proof (cases "n = 0")
    case True
    with n(1) show ?thesis by (simp add: round_pos_0)
  next
    case False
    with n(2) have "0 < n" by simp
    from round_pos_repr [OF this n(3) quantum_ge(1) [of x]] show ?thesis
      by (simp only: n(1))
  qed
qed

lemma round_pos_mono:
  assumes x: "0 < x" and xy: "x \<le> y"
  shows "round_pos x \<le> round_pos y"
proof -
  have y: "0 < y" using x xy by simp
  define q where "q = quantum x"
  define q' where "q' = quantum y"
  have qq: "q \<le> q'"
    unfolding q_def q'_def using x xy by (rule quantum_mono)
  show ?thesis
  proof (cases "q = q'")
    case True
    have "x / 2 powi q \<le> y / 2 powi q"
      using xy by (simp add: divide_right_mono)
    then have "rne (x / 2 powi q) \<le> rne (y / 2 powi q)" by (rule rne_mono)
    then have "(of_int (rne (x / 2 powi q)) :: real) \<le> of_int (rne (y / 2 powi q))"
      by (simp only: of_int_le_iff)
    then have "of_int (rne (x / 2 powi q)) * (2::real) powi q \<le>
        of_int (rne (y / 2 powi q)) * 2 powi q"
      by (intro mult_right_mono) simp_all
    then show ?thesis
      unfolding round_pos_def q_def [symmetric] q'_def [symmetric] True [symmetric] .
  next
    case False
    with qq have lt: "q + 1 \<le> q'" by simp
    define B :: real where "B = 2 powi (q' + 52)"
    have "- 1074 \<le> q" unfolding q_def by (rule quantum_ge)
    with lt have "q' \<noteq> - 1074" by simp
    then have q'e: "q' = ilog2 y - 52"
      unfolding q'_def quantum_def by (simp add: max_def split: if_splits)
    have By: "B \<le> y"
      using ilog2_lower [OF y] by (simp add: B_def q'e)
    have "ilog2 x + 1 \<le> q' + 52"
      using quantum_ge(2) [of x] lt by (simp add: q_def)
    then have "(2::real) powi (ilog2 x + 1) \<le> B"
      unfolding B_def by (simp only: pow2_le_iff)
    with ilog2_upper [OF x] have xB: "x \<le> B" by linarith
    have "x / 2 powi q \<le> B / 2 powi q"
      using xB by (simp add: divide_right_mono)
    also have "B / 2 powi q = 2 powi (q' + 52 - q)"
      unfolding B_def by (simp only: pow2_diff)
    also have "\<dots> = of_int (2 ^ nat (q' + 52 - q))"
      using lt by (intro pow2_nat) simp
    finally have "rne (x / 2 powi q) \<le> 2 ^ nat (q' + 52 - q)" by (rule rne_le_int)
    then have "(of_int (rne (x / 2 powi q)) :: real) \<le> of_int (2 ^ nat (q' + 52 - q))"
      by (simp only: of_int_le_iff)
    also have "\<dots> = 2 powi (q' + 52 - q)"
      using lt by (intro pow2_nat [symmetric]) simp
    finally have "of_int (rne (x / 2 powi q)) * (2::real) powi q \<le>
        2 powi (q' + 52 - q) * 2 powi q"
      by (intro mult_right_mono) simp_all
    also have "\<dots> = B"
      unfolding B_def pow2_add [symmetric] by simp
    finally have 1: "round_pos x \<le> B"
      unfolding round_pos_def q_def [symmetric] .
    have "B / 2 powi q' \<le> y / 2 powi q'"
      using By by (simp add: divide_right_mono)
    moreover have "B / 2 powi q' = of_int (2 ^ 52)"
      unfolding B_def pow2_diff [symmetric] by simp
    ultimately have "of_int (2 ^ 52) \<le> y / 2 powi q'" by simp
    then have "2 ^ 52 \<le> rne (y / 2 powi q')" by (rule rne_ge_int)
    then have "(of_int (2 ^ 52) :: real) \<le> of_int (rne (y / 2 powi q'))"
      by (simp only: of_int_le_iff)
    then have L: "of_int (2 ^ 52) * (2::real) powi q' \<le>
        of_int (rne (y / 2 powi q')) * 2 powi q'"
      by (intro mult_right_mono) simp_all
    have E: "of_int (2 ^ 52) * (2::real) powi q' = B"
      unfolding B_def by (simp add: pow2_add)
    have 2: "B \<le> round_pos y"
      unfolding round_pos_def q'_def [symmetric] using L by (simp only: E)
    from 1 2 show ?thesis by simp
  qed
qed

lemma round_pos_mono0: "0 \<le> x \<Longrightarrow> x \<le> y \<Longrightarrow> round_pos x \<le> round_pos y"
  using round_pos_mono [of x y] round_pos_nonneg [of y] by (cases "x = 0") (simp_all add: round_pos_0)

lemma round64_nonneg:
  assumes "0 \<le> x" and "round_pos x < 2 ^ 1024"
  shows "round64 x = Finite (round_pos x)"
proof (cases "x = 0")
  case True
  then show ?thesis by (simp add: round64_def round_pos_0)
next
  case False
  with assms(1) have "0 < x" by simp
  then have "\<bar>x\<bar> = x" "sgn x = 1" by simp_all
  with assms(2) False show ?thesis
    by (simp add: round64_def)
qed

lemma round64_le:
  assumes "0 \<le> x" and "x \<le> m" and "round_pos m = m" and "m < 2 ^ 1024"
  shows "round64 x = Finite (round_pos x) \<and> 0 \<le> round_pos x \<and> round_pos x \<le> m"
proof -
  have "round_pos x \<le> round_pos m"
    using assms(1,2) by (rule round_pos_mono0)
  then have le: "round_pos x \<le> m" by (simp only: assms(3))
  with assms(4) have "round_pos x < 2 ^ 1024" by simp
  with assms(1) have "round64 x = Finite (round_pos x)" by (rule round64_nonneg)
  with le round_pos_nonneg [OF assms(1)] show ?thesis by simp
qed

section \<open>Properties of the token bucket\<close>

lemma round64_0: "round64 0 = Finite 0"
  by (simp add: round64_def)

lemma round64_int:
  assumes "0 \<le> n" and "n \<le> 2 ^ 53"
  shows "round64 (of_int n) = Finite (of_int n)"
proof -
  have fixed: "round_pos (of_int n) = of_int n"
    using assms by (rule round_pos_int)
  have "(of_int n :: real) \<le> of_int (2 ^ 53)"
    using assms(2) by (simp only: of_int_le_iff)
  also have "\<dots> < 2 ^ 1024" by simp
  finally have "round_pos (of_int n) < 2 ^ 1024"
    by (simp only: fixed)
  moreover have "(0::real) \<le> of_int n" using assms(1) by simp
  ultimately have "round64 (of_int n) = Finite (round_pos (of_int n))"
    by (intro round64_nonneg)
  then show ?thesis by (simp only: fixed)
qed

lemma f64_of_int_small: "0 \<le> n \<Longrightarrow> n \<le> 2 ^ 53 \<Longrightarrow> f64_of_int n = Finite (of_int n)"
  by (simp only: f64_of_int_def round64_int)

lemma Seconds_0: "Seconds 0 = Finite 0"
  by (simp add: Seconds_def quo_def rem_def f64_of_int_def round64_0)

lemma Sub_same: "Sub t t = 0"
  by (simp add: Sub_def maxDuration_def minDuration_def)

text \<open>A positive integer converts to a value that is at least 1, or to infinity.\<close>

lemma round64_pos_cases:
  assumes "1 \<le> x"
  shows "round64 x = PInf \<or> (round64 x = Finite (round_pos x) \<and> 1 \<le> round_pos x)"
proof -
  have "round_pos 1 \<le> round_pos x"
    using assms by (intro round_pos_mono) simp_all
  moreover have "round_pos 1 = 1"
    using round_pos_int [of 1] by simp
  ultimately have "1 \<le> round_pos x" by simp
  moreover have "\<bar>x\<bar> = x" "sgn x = 1" "x \<noteq> 0" "0 < x"
    using assms by simp_all
  ultimately show ?thesis
    by (simp add: round64_def)
qed

lemma refillRate_finite:
  assumes m: "0 \<le> m" "m \<le> 2 ^ 63" and p: "0 < p"
  shows "\<exists>\<rho>. f64_div (Finite m) (f64_of_int p) = Finite \<rho> \<and> 0 \<le> \<rho> \<and> \<rho> \<le> 2 ^ 63"
proof -
  have "(1::real) \<le> of_int p" using p by simp
  from round64_pos_cases [OF this]
  show ?thesis
  proof
    assume "round64 (of_int p) = PInf"
    then show ?thesis by (simp add: f64_of_int_def)
  next
    assume a: "round64 (of_int p) = Finite (round_pos (of_int p)) \<and> 1 \<le> round_pos (of_int p)"
    define d where "d = round_pos (of_int p)"
    have d: "1 \<le> d" using a by (simp add: d_def)
    have div: "f64_div (Finite m) (f64_of_int p) = round64 (m / d)"
      using a d by (simp add: f64_of_int_def d_def)
    have "m / d \<le> m / 1"
      using d m(1) by (intro divide_left_mono) simp_all
    then have le: "m / d \<le> 2 ^ 63" using m(2) by simp
    have ge: "0 \<le> m / d" using m(1) d by simp
    have "round_pos (2 ^ 63) = (2::real) ^ 63"
      using round_pos_pow2 [of 63] by simp
    from round64_le [OF ge le this] show ?thesis
      unfolding div by auto
  qed
qed

subsection \<open>Calls at one instant\<close>

lemma TokenBucket_Allow_same_instant:
  assumes "tokens tb = Finite (of_int k)" and "maxTokens tb = Finite (of_int r)"
    and "refillRate tb = Finite \<rho>" and "0 \<le> k" and "k \<le> r" and "r \<le> 2 ^ 53"
  shows "TokenBucket_Allow tb (lastRefill tb) =
           (1 \<le> k, tb\<lparr>tokens := Finite (of_int (if 1 \<le> k then k - 1 else k))\<rparr>)"
proof -
  have k53: "k \<le> 2 ^ 53" using assms(5,6) by simp
  have mul: "f64_mul (Finite 0) (Finite \<rho>) = Finite 0"
    by (simp add: round64_0)
  have add: "f64_add (Finite (of_int k)) (Finite 0) = Finite (of_int k)"
    using round64_int [OF assms(4) k53] by simp
  have cap: "\<not> f64_less (Finite (of_int r)) (Finite (of_int k))"
    using assms(5) by simp
  have ge: "f64_le (Finite 1) (Finite (of_int k)) \<longleftrightarrow> 1 \<le> k"
    by simp
  have sub: "f64_sub (Finite (of_int k)) (Finite 1) = Finite (of_int (k - 1))" if "1 \<le> k"
  proof -
    have "round64 (of_int (k - 1)) = Finite (of_int (k - 1))"
      using that k53 by (intro round64_int) simp_all
    then show ?thesis by (simp add: f64_sub_def)
  qed
  have tb2: "f64_add (tokens tb) (f64_mul (Seconds (Sub (lastRefill tb) (lastRefill tb)))
      (refillRate tb)) = Finite (of_int k)"
    by (simp only: Sub_same Seconds_0 assms(1,3) mul add)
  show ?thesis
  proof (cases "1 \<le> k")
    case True
    show ?thesis
      unfolding TokenBucket_Allow_def Let_def using assms(5)
      by (simp add: tb2 assms(2) ge True sub [OF True] del: of_int_diff)
  next
    case False
    show ?thesis
      unfolding TokenBucket_Allow_def Let_def using assms(5)
      by (simp add: tb2 assms(2) ge False del: of_int_diff)
  qed
qed

lemma TokenBucket_calls_same_instant:
  assumes "tokens tb = Finite (of_int k)" and "maxTokens tb = Finite (of_int r)"
    and "refillRate tb = Finite \<rho>" and "0 \<le> k" and "k \<le> r" and "r \<le> 2 ^ 53"
  shows "TokenBucket_calls tb (replicate n (lastRefill tb)) =
           replicate (min n (nat k)) True @ replicate (n - nat k) False"
  using assms
proof (induction n arbitrary: tb k)
  case 0
  then show ?case by simp
next
  case (Suc n)
  let ?k = "if 1 \<le> k then k - 1 else k"
  let ?tb = "tb\<lparr>tokens := Finite (of_int ?k)\<rparr>"
  have step: "TokenBucket_Allow tb (lastRefill tb) = (1 \<le> k, ?tb)"
    using Suc.prems by (rule TokenBucket_Allow_same_instant)
  have ih: "TokenBucket_calls ?tb (replicate n (lastRefill ?tb)) =
      replicate (min n (nat ?k)) True @ replicate (n - nat ?k) False"
    using Suc.prems by (intro Suc.IH) auto
  show ?case
  proof (cases "1 \<le> k")
    case True
    then have "nat k = Suc (nat (k - 1))" by simp
    with True step ih show ?thesis by simp
  next
    case False
    with Suc.prems(4) have "k = 0" by simp
    with step ih show ?thesis by simp
  qed
qed

lemma NewTokenBucket_fields:
  "tokens (NewTokenBucket r p t0) = f64_of_int r"
  "maxTokens (NewTokenBucket r p t0) = f64_of_int r"
  "refillRate (NewTokenBucket r p t0) = f64_div (f64_of_int r) (f64_of_int p)"
  "lastRefill (NewTokenBucket r p t0) = t0"
  by (simp_all add: NewTokenBucket_def Let_def)

lemma TokenBucket_calls_fresh:
  assumes "0 < r" and "r \<le> 2 ^ 53" and "0 < p"
  shows "TokenBucket_calls (NewTokenBucket r p t0) (replicate (nat r + 1) t0) =
           replicate (nat r) True @ [False]"
proof -
  let ?tb = "NewTokenBucket r p t0"
  have m: "f64_of_int r = Finite (of_int r)"
    using assms by (intro f64_of_int_small) simp_all
  have "(0::real) \<le> of_int r" "(of_int r :: real) \<le> 2 ^ 63"
  proof -
    show "(0::real) \<le> of_int r" using assms(1) by simp
    have "(of_int r :: real) \<le> of_int (2 ^ 53)"
      using assms(2) by (simp only: of_int_le_iff)
    then show "(of_int r :: real) \<le> 2 ^ 63" by simp
  qed
  from refillRate_finite [OF this assms(3)] obtain \<rho>
    where rho: "f64_div (Finite (of_int r)) (f64_of_int p) = Finite \<rho>"
    by blast
  have "TokenBucket_calls ?tb (replicate (nat r + 1) (lastRefill ?tb)) =
      replicate (min (nat r + 1) (nat r)) True @ replicate (nat r + 1 - nat r) False"
    using assms
    by (intro TokenBucket_calls_same_instant [where r = r and \<rho> = \<rho>])
       (simp_all add: NewTokenBucket_fields m rho)
  then show ?thesis
    by (simp add: NewTokenBucket_fields)
qed

lemma TokenBucket_okI:
  "tokens tb = Finite t \<Longrightarrow> maxTokens tb = Finite m \<Longrightarrow> refillRate tb = Finite \<rho> \<Longrightarrow>
   0 \<le> t \<Longrightarrow> t \<le> m \<Longrightarrow> round_pos m = m \<Longrightarrow> m \<le> 2 ^ 63 \<Longrightarrow> 0 \<le> \<rho> \<Longrightarrow> \<rho> \<le> 2 ^ 63 \<Longrightarrow>
   TokenBucket_ok tb"
  by (simp add: TokenBucket_ok_def)

lemma TokenBucket_okE:
  assumes "TokenBucket_ok tb"
  obtains t m \<rho> where "tokens tb = Finite t" "maxTokens tb = Finite m"
    "refillRate tb = Finite \<rho>" "0 \<le> t" "t \<le> m" "round_pos m = m" "m \<le> 2 ^ 63"
    "0 \<le> \<rho>" "\<rho> \<le> 2 ^ 63"
  using assms unfolding TokenBucket_ok_def
  by (auto split: float64.splits)

lemma TokenBucket_ok_bounds:
  "TokenBucket_ok tb \<Longrightarrow>
   f64_le (Finite 0) (tokens tb) \<and> f64_le (tokens tb) (maxTokens tb)"
  by (erule TokenBucket_okE) simp

lemma pow2_fixed: "round_pos (2 ^ k) = (2::real) ^ k"
  using round_pos_pow2 [of "int k"] by simp

lemma quo_Second: "0 \<le> d \<Longrightarrow> quo d Second = d div 1000000000"
  by (cases "d = 0") (simp_all add: quo_def Second_def)

lemma rem_Second: assumes "0 \<le> d" shows "rem d Second = d mod 1000000000"
proof -
  have "rem d Second = d - Second * (d div 1000000000)"
    by (simp only: rem_def quo_Second [OF assms])
  also have "\<dots> = d mod 1000000000"
    by (simp add: Second_def minus_mult_div_eq_mod)
  finally show ?thesis .
qed

lemma Seconds_nonneg:
  assumes "0 \<le> d" and "d \<le> maxDuration"
  shows "\<exists>e. Seconds d = Finite e \<and> 0 \<le> e \<and> e \<le> 2 ^ 34"
proof -
  define sec where "sec = d div 1000000000"
  define nsec where "nsec = d mod 1000000000"
  have sec: "0 \<le> sec" "sec \<le> 9223372036"
  proof -
    show "0 \<le> sec"
      using assms(1) by (simp add: sec_def pos_imp_zdiv_nonneg_iff)
    have "d div 1000000000 \<le> (2 ^ 63 - 1) div 1000000000"
      using assms(2) by (intro zdiv_mono1) (simp_all add: maxDuration_def)
    then show "sec \<le> 9223372036"
      by (simp add: sec_def)
  qed
  have nsec: "0 \<le> nsec" "nsec < 1000000000"
    by (simp_all add: nsec_def)
  have a: "f64_of_int sec = Finite (of_int sec)"
    using sec by (intro f64_of_int_small) simp_all
  have b: "f64_of_int nsec = Finite (of_int nsec)"
    using nsec by (intro f64_of_int_small) simp_all
  have "(0::real) \<le> of_int nsec / 1000000000"
    using nsec(1) by simp
  moreover have "(of_int nsec :: real) / 1000000000 \<le> 1"
    using nsec(2) by simp
  moreover have "round_pos 1 = 1"
    using round_pos_int [of 1] by simp
  ultimately have frac: "round64 (of_int nsec / 1000000000) =
      Finite (round_pos (of_int nsec / 1000000000)) \<and>
      0 \<le> round_pos (of_int nsec / 1000000000) \<and>
      round_pos (of_int nsec / 1000000000) \<le> 1"
    by (intro round64_le) simp_all
  define f where "f = round_pos (of_int nsec / 1000000000)"
  have f: "0 \<le> f" "f \<le> 1" using frac by (simp_all add: f_def)
  have div: "f64_div (Finite (of_int nsec)) (Finite 1000000000) = Finite f"
    using frac by (simp add: f_def)
  have "(of_int sec :: real) \<le> of_int 9223372036"
    using sec(2) by (simp only: of_int_le_iff)
  then have "of_int sec + f \<le> 2 ^ 34"
    using f(2) by simp
  moreover have "0 \<le> of_int sec + f"
    using sec(1) f(1) by simp
  ultimately have "round64 (of_int sec + f) = Finite (round_pos (of_int sec + f)) \<and>
      0 \<le> round_pos (of_int sec + f) \<and> round_pos (of_int sec + f) \<le> 2 ^ 34"
    by (intro round64_le pow2_fixed) simp_all
  then show ?thesis
    unfolding Seconds_def quo_Second [OF assms(1)] rem_Second [OF assms(1)]
      sec_def [symmetric] nsec_def [symmetric] a b div
    by simp
qed

lemma Sub_range: "u \<le> t \<Longrightarrow> 0 \<le> Sub t u \<and> Sub t u \<le> maxDuration"
  by (simp add: Sub_def maxDuration_def minDuration_def)

lemma TokenBucket_Allow_ok:
  assumes ok: "TokenBucket_ok tb" and time: "lastRefill tb \<le> now"
  shows "TokenBucket_ok (snd (TokenBucket_Allow tb now)) \<and>
         lastRefill (snd (TokenBucket_Allow tb now)) = now \<and>
         maxTokens (snd (TokenBucket_Allow tb now)) = maxTokens tb"
proof -
  from ok obtain t m \<rho> where tb: "tokens tb = Finite t" "maxTokens tb = Finite m"
    "refillRate tb = Finite \<rho>" and t: "0 \<le> t" "t \<le> m" and m: "round_pos m = m" "m \<le> 2 ^ 63"
    and rho: "0 \<le> \<rho>" "\<rho> \<le> 2 ^ 63"
    by (rule TokenBucket_okE)
  have m1024: "m < 2 ^ 1024"
    using m(2) by (rule le_less_trans) simp
  from Seconds_nonneg Sub_range [OF time] obtain e
    where e: "Seconds (Sub now (lastRefill tb)) = Finite e" "0 \<le> e" "e \<le> 2 ^ 34"
    by blast
  have "e * \<rho> \<le> 2 ^ 34 * 2 ^ 63"
    using e rho by (intro mult_mono) simp_all
  then have "e * \<rho> \<le> 2 ^ 97" by simp
  moreover have "0 \<le> e * \<rho>" using e rho by simp
  ultimately have pr: "round64 (e * \<rho>) = Finite (round_pos (e * \<rho>)) \<and>
      0 \<le> round_pos (e * \<rho>) \<and> round_pos (e * \<rho>) \<le> 2 ^ 97"
    by (intro round64_le pow2_fixed) simp_all
  define pr where "pr = round_pos (e * \<rho>)"
  have mul: "round64 (e * \<rho>) = Finite pr" and prb: "0 \<le> pr" "pr \<le> 2 ^ 97"
    using pr by (simp_all add: pr_def)
  have "t + pr \<le> 2 ^ 63 + 2 ^ 97"
    using t(2) m(2) prb(2) by linarith
  then have "t + pr \<le> 2 ^ 98" by simp
  moreover have "0 \<le> t + pr" using t(1) prb(1) by simp
  ultimately have t1: "round64 (t + pr) = Finite (round_pos (t + pr)) \<and>
      0 \<le> round_pos (t + pr) \<and> round_pos (t + pr) \<le> 2 ^ 98"
    by (intro round64_le pow2_fixed) simp_all
  define t1 where "t1 = round_pos (t + pr)"
  have add: "round64 (t + pr) = Finite t1" and t1b: "0 \<le> t1"
    using t1 by (simp_all add: t1_def)
  define t2 where "t2 = (if m < t1 then m else t1)"
  have t2: "0 \<le> t2" "t2 \<le> m"
    using t1b t by (simp_all add: t2_def)
  have sub: "round64 (t2 - 1) = Finite (round_pos (t2 - 1)) \<and>
      0 \<le> round_pos (t2 - 1) \<and> round_pos (t2 - 1) \<le> m" if "1 \<le> t2"
  proof -
    have "0 \<le> t2 - 1" "t2 - 1 \<le> m" using that t2(2) by simp_all
    from round64_le [OF this m(1) m1024] show ?thesis .
  qed
  let ?tb3 = "tb\<lparr>lastRefill := now, tokens := Finite t2\<rparr>"
  have res: "TokenBucket_Allow tb now =
      (if 1 \<le> t2 then (True, tb\<lparr>lastRefill := now, tokens := round64 (t2 - 1)\<rparr>)
       else (False, tb\<lparr>lastRefill := now, tokens := Finite t2\<rparr>))"
    unfolding TokenBucket_Allow_def Let_def
    by (simp add: tb e(1) mul add t2_def f64_sub_def)
  show ?thesis
  proof (cases "1 \<le> t2")
    case True
    let ?tb = "tb\<lparr>lastRefill := now, tokens := Finite (round_pos (t2 - 1))\<rparr>"
    have eq: "snd (TokenBucket_Allow tb now) = ?tb"
      unfolding res using True sub [OF True] by simp
    have "TokenBucket_ok ?tb"
      using sub [OF True] m rho
      by (intro TokenBucket_okI [where t = "round_pos (t2 - 1)" and m = m and \<rho> = \<rho>])
         (simp_all add: tb)
    then show ?thesis
      unfolding eq by simp
  next
    case False
    let ?tb = "tb\<lparr>lastRefill := now, tokens := Finite t2\<rparr>"
    have eq: "snd (TokenBucket_Allow tb now) = ?tb"
      unfolding res using False by simp
    have "TokenBucket_ok ?tb"
      using t2 m rho
      by (intro TokenBucket_okI [where t = t2 and m = m and \<rho> = \<rho>]) (simp_all add: tb)
    then show ?thesis
      unfolding eq by simp
  qed
qed

lemma TokenBucket_after_ok:
  "TokenBucket_ok tb \<Longrightarrow> sorted (lastRefill tb # ts) \<Longrightarrow>
   TokenBucket_ok (TokenBucket_after tb ts) \<and>
   maxTokens (TokenBucket_after tb ts) = maxTokens tb"
proof (induction ts arbitrary: tb)
  case Nil
  then show ?case by simp
next
  case (Cons t ts)
  let ?tb = "snd (TokenBucket_Allow tb t)"
  have "lastRefill tb \<le> t" using Cons.prems(2) by simp
  from TokenBucket_Allow_ok [OF Cons.prems(1) this]
  have step: "TokenBucket_ok ?tb" "lastRefill ?tb = t" "maxTokens ?tb = maxTokens tb"
    by simp_all
  have "sorted (lastRefill ?tb # ts)"
    using Cons.prems(2) by (simp add: step(2))
  from Cons.IH [OF step(1) this] show ?case
    by (simp add: step(3))
qed

lemma NewTokenBucket_ok:
  assumes "0 < r" and "r < 2 ^ 63" and "0 < p"
  shows "TokenBucket_ok (NewTokenBucket r p t0)"
proof -
  have "(of_int r :: real) \<le> of_int (2 ^ 63)"
    using assms(2) by simp
  then have le: "(of_int r :: real) \<le> 2 ^ 63" by simp
  have ge: "(0::real) \<le> of_int r" using assms(1) by simp
  have "round64 (of_int r) = Finite (round_pos (of_int r)) \<and>
      0 \<le> round_pos (of_int r) \<and> round_pos (of_int r) \<le> 2 ^ 63"
    using ge le by (intro round64_le pow2_fixed) simp_all
  moreover define m where "m = round_pos (of_int r)"
  ultimately have m: "f64_of_int r = Finite m" "0 \<le> m" "m \<le> 2 ^ 63"
    by (simp_all add: f64_of_int_def)
  have fixed: "round_pos m = m"
    unfolding m_def using ge by (rule round_pos_idem)
  from refillRate_finite [OF m(2,3) assms(3)] obtain \<rho>
    where rho: "f64_div (Finite m) (f64_of_int p) = Finite \<rho>" "0 \<le> \<rho>" "\<rho> \<le> 2 ^ 63"
    by blast
  show ?thesis
    using m rho fixed
    by (intro TokenBucket_okI [where t = m and m = m and \<rho> = \<rho>])
       (simp_all add: NewTokenBucket_fields)
qed

lemma TokenBucket_after_bounds:
  assumes "0 < r" and "r < 2 ^ 63" and "0 < p" and "sorted (t0 # ts)"
  shows "f64_le (Finite 0) (tokens (TokenBucket_after (NewTokenBucket r p t0) ts)) \<and>
         f64_le (tokens (TokenBucket_after (NewTokenBucket r p t0) ts))
           (maxTokens (TokenBucket_after (NewTokenBucket r p t0) ts)) \<and>
         maxTokens (TokenBucket_after (NewTokenBucket r p t0) ts) = f64_of_int r"
proof -
  have "sorted (lastRefill (NewTokenBucket r p t0) # ts)"
    using assms(4) by (simp add: NewTokenBucket_fields)
  from TokenBucket_after_ok [OF NewTokenBucket_ok [OF assms(1,2,3)] this]
  have ok: "TokenBucket_ok (TokenBucket_after (NewTokenBucket r p t0) ts)"
    and mx: "maxTokens (TokenBucket_after (NewTokenBucket r p t0) ts) = f64_of_int r"
    by (simp_all add: NewTokenBucket_fields)
  from TokenBucket_ok_bounds [OF ok] mx show ?thesis
    by simp
qed

subsection \<open>Rates beyond 53 bits\<close>

lemmas f64_eval = round64_def round_pos_def quantum_def ilog2_def rne_def compute_floorlog Let_def

lemma round64_2_60: "round64 (2 ^ 60) = Finite (2 ^ 60)"
  by (simp add: f64_eval)

lemma round64_2_60_minus_1: "round64 (2 ^ 60 - 1) = Finite (2 ^ 60)"
  by (simp add: f64_eval)

lemma round64_2_53_plus_1: "round64 (2 ^ 53 + 1) = Finite (2 ^ 53)"
  by (simp add: f64_eval)

lemma TokenBucket_Allow_stuck:
  assumes "tokens tb = Finite (2 ^ 60)" and "maxTokens tb = Finite (2 ^ 60)"
    and "refillRate tb = Finite \<rho>"
  shows "TokenBucket_Allow tb (lastRefill tb) = (True, tb)"
proof -
  have mul: "f64_mul (Finite 0) (Finite \<rho>) = Finite 0"
    by (simp add: round64_0)
  have add: "f64_add (Finite (2 ^ 60)) (Finite 0) = Finite (2 ^ 60)"
    using round64_2_60 by simp
  have sub: "f64_sub (Finite (2 ^ 60)) (Finite 1) = Finite (2 ^ 60)"
    using round64_2_60_minus_1 by (simp add: f64_sub_def)
  have tb2: "f64_add (tokens tb) (f64_mul (Seconds (Sub (lastRefill tb) (lastRefill tb)))
      (refillRate tb)) = Finite (2 ^ 60)"
    by (simp only: Sub_same Seconds_0 assms(1,3) mul add)
  have same: "tb\<lparr>lastRefill := lastRefill tb, tokens := Finite (2 ^ 60)\<rparr> = tb"
    using assms(1) by (cases tb) simp
  have "TokenBucket_Allow tb (lastRefill tb) =
      (True, tb\<lparr>lastRefill := lastRefill tb, tokens := Finite (2 ^ 60)\<rparr>)"
    unfolding TokenBucket_Allow_def Let_def using sub
    by (simp add: tb2 assms(2))
  then show ?thesis
    by (simp only: same)
qed

lemma TokenBucket_calls_stuck:
  assumes "tokens tb = Finite (2 ^ 60)" and "maxTokens tb = Finite (2 ^ 60)"
    and "refillRate tb = Finite \<rho>"
  shows "TokenBucket_calls tb (replicate n (lastRefill tb)) = replicate n True"
  by (induction n) (simp_all add: TokenBucket_Allow_stuck [OF assms])

lemma replicate_True_neq: "replicate (n + 1) True \<noteq> replicate n True @ [False]"
proof
  assume "replicate (n + 1) True = replicate n True @ [False]"
  moreover have "replicate (n + 1) True = replicate n True @ [True]"
    by (simp add: replicate_append_same)
  ultimately have "replicate n True @ [True] = replicate n True @ [False]"
    by (simp only:)
  then show False by simp
qed

lemma TokenBucket_calls_stuck_fresh:
  "TokenBucket_calls (NewTokenBucket (2 ^ 60) 1 0) (replicate (nat (2 ^ 60) + 1) 0) \<noteq>
     replicate (nat (2 ^ 60)) True @ [False]"
proof -
  let ?tb = "NewTokenBucket (2 ^ 60) 1 0"
  have m: "f64_of_int (2 ^ 60) = Finite (2 ^ 60)"
    using round64_2_60 by (simp add: f64_of_int_def)
  have one: "f64_of_int 1 = Finite 1"
    using f64_of_int_small [of 1] by simp
  have rho: "f64_div (Finite (2 ^ 60)) (Finite 1) = Finite (2 ^ 60)"
    using round64_2_60 by simp
  have "TokenBucket_calls ?tb (replicate (nat (2 ^ 60) + 1) (lastRefill ?tb)) =
      replicate (nat (2 ^ 60) + 1) True"
    by (rule TokenBucket_calls_stuck [where \<rho> = "2 ^ 60"])
       (simp_all only: NewTokenBucket_fields m one rho)
  then have "TokenBucket_calls ?tb (replicate (nat (2 ^ 60) + 1) 0) =
      replicate (nat (2 ^ 60) + 1) True"
    by (simp only: NewTokenBucket_fields)
  then show ?thesis
    by (simp only: replicate_True_neq not_False_eq_True)
qed

subsection \<open>Fresh buckets and the bounds of the tokens\<close>

lemma TokenBucket_Allow_steps:
  "TokenBucket_Allow tb now =
     (let refilled = f64_add (tokens tb)
                       (f64_mul (Seconds (Sub now (lastRefill tb))) (refillRate tb));
          capped = (if f64_less (maxTokens tb) refilled then maxTokens tb else refilled)
      in if f64_le (Finite 1) capped
         then (True, tb\<lparr>lastRefill := now, tokens := f64_sub capped (Finite 1)\<rparr>)
         else (False, tb\<lparr>lastRefill := now, tokens := capped\<rparr>))"
  by (simp add: TokenBucket_Allow_def Let_def)

lemma NewTokenBucket_2_60:
  "tokens (NewTokenBucket (2 ^ 60) 1 0) = Finite (2 ^ 60)"
  "maxTokens (NewTokenBucket (2 ^ 60) 1 0) = Finite (2 ^ 60)"
  "refillRate (NewTokenBucket (2 ^ 60) 1 0) = Finite (2 ^ 60)"
proof -
  have m: "f64_of_int (2 ^ 60) = Finite (2 ^ 60)"
    using round64_2_60 by (simp add: f64_of_int_def)
  have one: "f64_of_int 1 = Finite 1"
    using f64_of_int_small [of 1] by simp
  have rho: "f64_div (Finite (2 ^ 60)) (Finite 1) = Finite (2 ^ 60)"
    using round64_2_60 by simp
  show "tokens (NewTokenBucket (2 ^ 60) 1 0) = Finite (2 ^ 60)"
    "maxTokens (NewTokenBucket (2 ^ 60) 1 0) = Finite (2 ^ 60)"
    "refillRate (NewTokenBucket (2 ^ 60) 1 0) = Finite (2 ^ 60)"
    by (simp_all only: NewTokenBucket_fields m one rho)
qed

lemma NewTokenBucket_2_60_stuck:
  "TokenBucket_Allow (NewTokenBucket (2 ^ 60) 1 0) 0 = (True, NewTokenBucket (2 ^ 60) 1 0)"
proof -
  let ?tb = "NewTokenBucket (2 ^ 60) 1 0"
  have "TokenBucket_Allow ?tb (lastRefill ?tb) = (True, ?tb)"
    by (rule TokenBucket_Allow_stuck) (rule NewTokenBucket_2_60)+
  then show ?thesis
    by (simp only: NewTokenBucket_fields)
qed

text \<open>
  C1.  For a rate \<open>r\<close> with \<open>0 < r \<le> 2 ^ 53\<close> and a period \<open>p > 0\<close>, a token bucket created
  at the instant \<open>t0\<close> answers \<open>r + 1\<close> calls of \<^verbatim>\<open>Allow()\<close> made at that same instant with
  \<open>r\<close> times true and then false.  Every call of \<^verbatim>\<open>Allow()\<close>, in any state, first adds the
  elapsed seconds times the refill rate to the tokens, caps the sum at \<open>maxTokens\<close>, and
  then allows and subtracts one token exactly when at least one token is there; the
  arithmetic is that of \<^verbatim>\<open>float64\<close>.
\<close>

theorem token_bucket_allows_rate_then_denies:
  assumes "0 < r" and "r \<le> 2 ^ 53" and "0 < p"
  shows "TokenBucket_calls (NewTokenBucket r p t0) (replicate (nat r + 1) t0) =
           replicate (nat r) True @ [False] \<and>
         TokenBucket_Allow tb now =
           (let refilled = f64_add (tokens tb)
                             (f64_mul (Seconds (Sub now (lastRefill tb))) (refillRate tb));
                capped = (if f64_less (maxTokens tb) refilled then maxTokens tb else refilled)
            in if f64_le (Finite 1) capped
               then (True, tb\<lparr>lastRefill := now, tokens := f64_sub capped (Finite 1)\<rparr>)
               else (False, tb\<lparr>lastRefill := now, tokens := capped\<rparr>))"
proof
  show "TokenBucket_calls (NewTokenBucket r p t0) (replicate (nat r + 1) t0) =
      replicate (nat r) True @ [False]"
    using assms by (rule TokenBucket_calls_fresh)
next
  show "TokenBucket_Allow tb now =
      (let refilled = f64_add (tokens tb)
                        (f64_mul (Seconds (Sub now (lastRefill tb))) (refillRate tb));
           capped = (if f64_less (maxTokens tb) refilled then maxTokens tb else refilled)
       in if f64_le (Finite 1) capped
          then (True, tb\<lparr>lastRefill := now, tokens := f64_sub capped (Finite 1)\<rparr>)
          else (False, tb\<lparr>lastRefill := now, tokens := capped\<rparr>))"
    by (rule TokenBucket_Allow_steps)
qed

text \<open>Rate 5 per second: five calls at the instant of creation pass, the sixth does not.\<close>

theorem token_bucket_allows_rate_then_denies_witness:
  "TokenBucket_calls (NewTokenBucket 5 1 0) (replicate 6 0) = replicate 5 True @ [False]"
  using token_bucket_allows_rate_then_denies [of 5 1 0, THEN conjunct1] by simp

text \<open>
  A rate of \<open>2 ^ 60\<close> fits a Go \<^verbatim>\<open>int\<close>.  The doubles next to \<open>2 ^ 60\<close> are 128 apart below
  it, so \<open>2 ^ 60 - 1\<close> rounds back to \<open>2 ^ 60\<close>: a call allows and leaves the bucket as it
  was, and no call is ever denied.
\<close>

theorem token_bucket_rate_2_60_counterexample:
  "TokenBucket_Allow (NewTokenBucket (2 ^ 60) 1 0) 0 = (True, NewTokenBucket (2 ^ 60) 1 0) \<and>
   TokenBucket_calls (NewTokenBucket (2 ^ 60) 1 0) (replicate (nat (2 ^ 60) + 1) 0) \<noteq>
     replicate (nat (2 ^ 60)) True @ [False]"
  using NewTokenBucket_2_60_stuck TokenBucket_calls_stuck_fresh by (rule conjI)

text \<open>
  C8.  For a rate \<open>r\<close> with \<open>0 < r < 2 ^ 63\<close> (a positive Go \<^verbatim>\<open>int\<close>) and a period \<open>p > 0\<close>,
  after the construction at \<open>t0\<close> and after every sequence of \<^verbatim>\<open>Allow()\<close> calls whose clock
  readings never go back, the tokens are at least 0 and at most \<open>maxTokens\<close>, and
  \<open>maxTokens\<close> is \<^verbatim>\<open>float64(r)\<close>, which is \<open>r\<close> itself when \<open>r \<le> 2 ^ 53\<close>.
\<close>

theorem token_bucket_tokens_within_bounds:
  assumes "0 < r" and "r < 2 ^ 63" and "0 < p" and "sorted (t0 # ts)"
  shows "f64_le (Finite 0) (tokens (TokenBucket_after (NewTokenBucket r p t0) ts)) \<and>
         f64_le (tokens (TokenBucket_after (NewTokenBucket r p t0) ts))
                (maxTokens (TokenBucket_after (NewTokenBucket r p t0) ts)) \<and>
         maxTokens (TokenBucket_after (NewTokenBucket r p t0) ts) = f64_of_int r \<and>
         (r \<le> 2 ^ 53 \<longrightarrow>
            maxTokens (TokenBucket_after (NewTokenBucket r p t0) ts) = Finite (of_int r))"
proof -
  let ?tb = "TokenBucket_after (NewTokenBucket r p t0) ts"
  have b: "f64_le (Finite 0) (tokens ?tb) \<and> f64_le (tokens ?tb) (maxTokens ?tb) \<and>
      maxTokens ?tb = f64_of_int r"
    using assms by (rule TokenBucket_after_bounds)
  have "maxTokens ?tb = Finite (of_int r)" if "r \<le> 2 ^ 53"
  proof -
    have "f64_of_int r = Finite (of_int r)"
      using assms(1) that by (intro f64_of_int_small) simp_all
    with b show ?thesis by simp
  qed
  with b show ?thesis by blast
qed

text \<open>
  Rate 2 per second: three calls at the instant of creation and one call 0.6 seconds
  later.
\<close>

theorem token_bucket_tokens_within_bounds_witness:
  "f64_le (Finite 0) (tokens (TokenBucket_after (NewTokenBucket 2 1 0) [0, 0, 0, 600000000])) \<and>
   f64_le (tokens (TokenBucket_after (NewTokenBucket 2 1 0) [0, 0, 0, 600000000]))
          (maxTokens (TokenBucket_after (NewTokenBucket 2 1 0) [0, 0, 0, 600000000])) \<and>
   maxTokens (TokenBucket_after (NewTokenBucket 2 1 0) [0, 0, 0, 600000000]) = Finite 2"
proof -
  let ?tb = "TokenBucket_after (NewTokenBucket 2 1 0) [0, 0, 0, 600000000]"
  have w: "f64_le (Finite 0) (tokens ?tb) \<and> f64_le (tokens ?tb) (maxTokens ?tb) \<and>
      maxTokens ?tb = f64_of_int 2 \<and>
      ((2::int) \<le> 2 ^ 53 \<longrightarrow> maxTokens ?tb = Finite (of_int 2))"
    by (rule token_bucket_tokens_within_bounds) simp_all
  have "(2::int) \<le> 2 ^ 53" by simp
  with w have "maxTokens ?tb = Finite (of_int 2)" by blast
  then have "maxTokens ?tb = Finite 2" by simp
  with w show ?thesis by blast
qed

text \<open>
  The rate \<open>2 ^ 53 + 1\<close> is not a double: \<open>maxTokens\<close> is \<open>2 ^ 53\<close>.  And nothing keeps the
  period positive: with rate 5 and period \<open>- 1\<close> the refill rate is \<open>- 5\<close>, and a call ten
  seconds after the creation leaves \<open>- 45\<close> tokens.
\<close>

theorem token_bucket_bounds_counterexample:
  "maxTokens (NewTokenBucket (2 ^ 53 + 1) 1 0) = Finite (2 ^ 53) \<and>
   maxTokens (NewTokenBucket (2 ^ 53 + 1) 1 0) \<noteq> Finite (of_int (2 ^ 53 + 1)) \<and>
   tokens (TokenBucket_after (NewTokenBucket 5 (- 1) 0) [10000000000]) = Finite (- 45) \<and>
   \<not> f64_le (Finite 0) (tokens (TokenBucket_after (NewTokenBucket 5 (- 1) 0) [10000000000]))"
proof -
  have big: "maxTokens (NewTokenBucket (2 ^ 53 + 1) 1 0) = Finite (2 ^ 53)"
    using round64_2_53_plus_1 by (simp add: NewTokenBucket_fields f64_of_int_def)
  have neg: "tokens (TokenBucket_after (NewTokenBucket 5 (- 1) 0) [10000000000]) = Finite (- 45)"
    by (simp add: NewTokenBucket_def TokenBucket_Allow_def Seconds_def Sub_def quo_def rem_def
        Second_def f64_of_int_def f64_sub_def minDuration_def maxDuration_def f64_eval)
  have "maxTokens (NewTokenBucket (2 ^ 53 + 1) 1 0) \<noteq> Finite (of_int (2 ^ 53 + 1))"
    by (simp only: big) simp
  moreover have
    "\<not> f64_le (Finite 0) (tokens (TokenBucket_after (NewTokenBucket 5 (- 1) 0) [10000000000]))"
    by (simp only: neg) simp
  ultimately show ?thesis
    using big neg by blast
qed

section \<open>Properties of the fixed window\<close>

lemma FixedWindow_Allow_inside:
  "Sub t (windowStart fw) < windowPeriod fw \<Longrightarrow>
   FixedWindow_Allow fw t =
     (if count fw < maxRequests fw then (True, fw\<lparr>count := count fw + 1\<rparr>) else (False, fw))"
  by (simp add: FixedWindow_Allow_def)

lemma FixedWindow_Allow_reset:
  "windowPeriod fw \<le> Sub t (windowStart fw) \<Longrightarrow> 0 < maxRequests fw \<Longrightarrow>
   FixedWindow_Allow fw t = (True, fw\<lparr>windowStart := t, count := 1\<rparr>)"
  by (simp add: FixedWindow_Allow_def)

lemma FixedWindow_calls_inside:
  "\<forall>t \<in> set ts. Sub t (windowStart fw) < windowPeriod fw \<Longrightarrow>
   0 \<le> count fw \<Longrightarrow> count fw \<le> maxRequests fw \<Longrightarrow>
   FixedWindow_calls fw ts =
     replicate (min (length ts) (nat (maxRequests fw - count fw))) True @
     replicate (length ts - nat (maxRequests fw - count fw)) False"
proof (induction ts arbitrary: fw)
  case Nil
  then show ?case by simp
next
  case (Cons t ts)
  have inside: "Sub t (windowStart fw) < windowPeriod fw"
    using Cons.prems(1) by simp
  show ?case
  proof (cases "count fw < maxRequests fw")
    case True
    let ?fw = "fw\<lparr>count := count fw + 1\<rparr>"
    have step: "FixedWindow_Allow fw t = (True, ?fw)"
      using inside True by (simp add: FixedWindow_Allow_inside)
    have ih: "FixedWindow_calls ?fw ts =
        replicate (min (length ts) (nat (maxRequests ?fw - count ?fw))) True @
        replicate (length ts - nat (maxRequests ?fw - count ?fw)) False"
      using Cons.prems True by (intro Cons.IH) simp_all
    have n: "nat (maxRequests fw - count fw) = Suc (nat (maxRequests fw - (count fw + 1)))"
      using True by simp
    show ?thesis
      using step ih by (simp add: n)
  next
    case False
    have step: "FixedWindow_Allow fw t = (False, fw)"
      using inside False by (simp add: FixedWindow_Allow_inside)
    have ih: "FixedWindow_calls fw ts =
        replicate (min (length ts) (nat (maxRequests fw - count fw))) True @
        replicate (length ts - nat (maxRequests fw - count fw)) False"
      using Cons.prems by (intro Cons.IH) simp_all
    have z: "nat (maxRequests fw - count fw) = 0"
      using False by simp
    show ?thesis
      using step ih by (simp add: z)
  qed
qed

text \<open>
  C2.  For a rate \<open>r > 0\<close> and a period \<open>p\<close> with \<open>0 < p \<le> 9223372036\<close> the window of a new
  limiter is \<open>p\<close> seconds long, and \<open>r + 1\<close> calls made less than \<open>p\<close> seconds after the
  creation are answered with \<open>r\<close> times allow and then deny.  A call that sees
  \<open>now - windowStart \<ge> windowPeriod\<close> first sets \<open>windowStart\<close> to now and \<open>count\<close> to 0 and is
  then served from the new window: whatever the count was, that call and the next
  \<open>r - 1\<close> calls less than \<open>p\<close> seconds after it are allowed (\<open>r\<close> allowed calls from the reset
  on) and the one after them is denied.  No call changes \<open>maxRequests\<close> or \<open>windowPeriod\<close>.
\<close>

theorem fixed_window_allows_rate_per_window:
  assumes "0 < r" and "0 < p" and "p \<le> 9223372036"
  shows "windowPeriod (NewFixedWindow r p t0) = p * 1000000000 \<and>
         maxRequests (NewFixedWindow r p t0) = r \<and>
         (length ts = nat r + 1 \<and> (\<forall>u \<in> set ts. Sub u t0 < p * 1000000000) \<longrightarrow>
          FixedWindow_calls (NewFixedWindow r p t0) ts = replicate (nat r) True @ [False]) \<and>
         (windowPeriod fw \<le> Sub t (windowStart fw) \<longrightarrow>
          FixedWindow_Allow fw t = FixedWindow_Allow (fw\<lparr>windowStart := t, count := 0\<rparr>) t \<and>
          (0 < maxRequests fw \<longrightarrow>
           FixedWindow_Allow fw t = (True, fw\<lparr>windowStart := t, count := 1\<rparr>))) \<and>
         (maxRequests fw = r \<and> windowPeriod fw = p * 1000000000 \<and>
          p * 1000000000 \<le> Sub t (windowStart fw) \<and>
          length us = nat r \<and> (\<forall>u \<in> set us. Sub u t < p * 1000000000) \<longrightarrow>
          FixedWindow_calls fw (t # us) = replicate (nat r) True @ [False]) \<and>
         windowPeriod (snd (FixedWindow_Allow fw t)) = windowPeriod fw \<and>
         maxRequests (snd (FixedWindow_Allow fw t)) = maxRequests fw"
proof (intro conjI impI)
  show period: "windowPeriod (NewFixedWindow r p t0) = p * 1000000000"
    using assms by (simp add: NewFixedWindow_def wrap64_def Second_def)
  show "maxRequests (NewFixedWindow r p t0) = r"
    by (simp add: NewFixedWindow_def)
  show "windowPeriod (snd (FixedWindow_Allow fw t)) = windowPeriod fw"
    by (simp add: FixedWindow_Allow_def Let_def)
  show "maxRequests (snd (FixedWindow_Allow fw t)) = maxRequests fw"
    by (simp add: FixedWindow_Allow_def Let_def)
  show "FixedWindow_calls (NewFixedWindow r p t0) ts = replicate (nat r) True @ [False]"
    if a: "length ts = nat r + 1 \<and> (\<forall>u \<in> set ts. Sub u t0 < p * 1000000000)"
  proof -
    let ?fw = "NewFixedWindow r p t0"
    have start: "windowStart ?fw = t0" "count ?fw = 0" "maxRequests ?fw = r"
      by (simp_all add: NewFixedWindow_def)
    have "\<forall>u \<in> set ts. Sub u (windowStart ?fw) < windowPeriod ?fw"
      using a by (simp only: start period) simp
    then have "FixedWindow_calls ?fw ts =
        replicate (min (length ts) (nat (maxRequests ?fw - count ?fw))) True @
        replicate (length ts - nat (maxRequests ?fw - count ?fw)) False"
      using assms(1) by (intro FixedWindow_calls_inside) (simp_all add: start)
    then show ?thesis
      using a by (simp add: start)
  qed
  show "FixedWindow_Allow fw t = FixedWindow_Allow (fw\<lparr>windowStart := t, count := 0\<rparr>) t"
    if "windowPeriod fw \<le> Sub t (windowStart fw)"
    using that by (simp add: FixedWindow_Allow_def)
  show "FixedWindow_Allow fw t = (True, fw\<lparr>windowStart := t, count := 1\<rparr>)"
    if "windowPeriod fw \<le> Sub t (windowStart fw)" and "0 < maxRequests fw"
    using that by (rule FixedWindow_Allow_reset)
  show "FixedWindow_calls fw (t # us) = replicate (nat r) True @ [False]"
    if b: "maxRequests fw = r \<and> windowPeriod fw = p * 1000000000 \<and>
        p * 1000000000 \<le> Sub t (windowStart fw) \<and>
        length us = nat r \<and> (\<forall>u \<in> set us. Sub u t < p * 1000000000)"
  proof -
    let ?fw = "fw\<lparr>windowStart := t, count := 1\<rparr>"
    have step: "FixedWindow_Allow fw t = (True, ?fw)"
      using b assms(1) by (intro FixedWindow_Allow_reset) simp_all
    have "FixedWindow_calls ?fw us =
        replicate (min (length us) (nat (maxRequests ?fw - count ?fw))) True @
        replicate (length us - nat (maxRequests ?fw - count ?fw)) False"
      using b assms(1) by (intro FixedWindow_calls_inside) simp_all
    moreover have "nat r = Suc (nat (r - 1))"
      using assms(1) by simp
    ultimately show ?thesis
      using step b by (simp add: replicate_append_same)
  qed
qed

text \<open>
  Rate 3 per second: four calls in the first second, and four calls from the instant
  the first window is over.
\<close>

theorem fixed_window_allows_rate_per_window_witness:
  "windowPeriod (NewFixedWindow 3 1 0) = 1000000000 \<and>
   FixedWindow_calls (NewFixedWindow 3 1 0) [0, 5, 999999999, 999999999] =
     [True, True, True, False] \<and>
   FixedWindow_Allow \<lparr>count = 3, maxRequests = 3, windowStart = 0, windowPeriod = 1000000000\<rparr>
       1000000000 =
     (True, \<lparr>count = 1, maxRequests = 3, windowStart = 1000000000,
             windowPeriod = 1000000000\<rparr>) \<and>
   FixedWindow_calls \<lparr>count = 3, maxRequests = 3, windowStart = 0, windowPeriod = 1000000000\<rparr>
       [1000000000, 1000000001, 1999999999, 1999999999] =
     [True, True, True, False]"
  using fixed_window_allows_rate_per_window [of 3 1 0 "[0, 5, 999999999, 999999999]"
      "\<lparr>count = 3, maxRequests = 3, windowStart = 0, windowPeriod = 1000000000\<rparr>"
      1000000000 "[1000000001, 1999999999, 1999999999]"]
  by (simp add: NewFixedWindow_def FixedWindow_Allow_def wrap64_def Second_def Sub_def
      minDuration_def maxDuration_def)

text \<open>
  The period in nanoseconds is a 64-bit product.  For 9223372037 seconds it is negative,
  every call starts a new window, and with rate 1 three calls within seven nanoseconds
  all pass.  For 18446744074 seconds it is 290448384 nanoseconds, and with rate 1 a
  second call 0.3 seconds after the first passes.
\<close>

theorem fixed_window_period_wraps_counterexample:
  "windowPeriod (NewFixedWindow 1 9223372037 0) = - 9223372036709551616 \<and>
   FixedWindow_calls (NewFixedWindow 1 9223372037 0) [0, 0, 7] = [True, True, True] \<and>
   windowPeriod (NewFixedWindow 1 18446744074 0) = 290448384 \<and>
   FixedWindow_calls (NewFixedWindow 1 18446744074 0) [0, 300000000] = [True, True]"
  by (simp add: NewFixedWindow_def FixedWindow_Allow_def wrap64_def Second_def Sub_def
      minDuration_def maxDuration_def)

section \<open>Properties of the limiter key\<close>

lemma digit_less_10_cases:
  fixes a :: nat
  assumes "a < 10"
  shows "a = 0 \<or> a = 1 \<or> a = 2 \<or> a = 3 \<or> a = 4 \<or> a = 5 \<or> a = 6 \<or> a = 7 \<or> a = 8 \<or> a = 9"
  using assms by arith

lemma digit_code: "a < 10 \<Longrightarrow> (of_char (digit a) :: nat) = 48 + a"
  using digit_less_10_cases [of a] by (auto simp: digit_def)

lemma digit_inj:
  assumes "a < 10" and "b < 10" and "digit a = digit b"
  shows "a = b"
proof -
  have "(of_char (digit a) :: nat) = of_char (digit b)"
    by (simp only: assms(3))
  then have "48 + a = 48 + b"
    by (simp only: digit_code [OF assms(1)] digit_code [OF assms(2)])
  then show ?thesis by arith
qed

lemma digit_not_bar: "a < 10 \<Longrightarrow> digit a \<noteq> CHR ''|''"
proof
  assume "a < 10" and "digit a = CHR ''|''"
  then have "(of_char (CHR ''|'') :: nat) = 48 + a"
    using digit_code [of a] by (simp only:)
  with \<open>a < 10\<close> show False by simp
qed

lemma digit_not_minus: "a < 10 \<Longrightarrow> digit a \<noteq> CHR ''-''"
proof
  assume "a < 10" and "digit a = CHR ''-''"
  then have "(of_char (CHR ''-'') :: nat) = 48 + a"
    using digit_code [of a] by (simp only:)
  with \<open>a < 10\<close> show False by simp
qed

declare digits.simps [simp del]

lemma digits_not_Nil: "digits n \<noteq> []"
  by (subst digits.simps) simp

lemma digits_chars: "c \<in> set (digits n) \<Longrightarrow> c \<noteq> CHR ''|'' \<and> c \<noteq> CHR ''-''"
proof (induction n rule: digits.induct)
  case (1 n)
  show ?case
  proof (cases "n < 10")
    case True
    then have "digits n = [digit n]"
      by (subst digits.simps) simp
    with "1.prems" True show ?thesis
      by (simp add: digit_not_bar digit_not_minus)
  next
    case False
    then have eq: "digits n = digits (n div 10) @ [digit (n mod 10)]"
      by (subst digits.simps) simp
    have "n mod 10 < 10" by simp
    then have "digit (n mod 10) \<noteq> CHR ''|'' \<and> digit (n mod 10) \<noteq> CHR ''-''"
      by (simp add: digit_not_bar digit_not_minus)
    with "1.prems" "1.IH" [OF False] eq show ?thesis
      by auto
  qed
qed

lemma digits_inj: "digits n = digits m \<Longrightarrow> n = m"
proof (induction n arbitrary: m rule: digits.induct)
  case (1 n)
  show ?case
  proof (cases "n < 10")
    case True
    then have n: "digits n = [digit n]"
      by (subst digits.simps) simp
    show ?thesis
    proof (cases "m < 10")
      case m10: True
      then have "digits m = [digit m]"
        by (subst digits.simps) simp
      with n "1.prems" have "digit n = digit m" by simp
      with True m10 show ?thesis by (rule digit_inj)
    next
      case False
      then have "digits m = digits (m div 10) @ [digit (m mod 10)]"
        by (subst digits.simps) simp
      with n "1.prems" have "digits (m div 10) = []" by simp
      then show ?thesis by (simp add: digits_not_Nil)
    qed
  next
    case False
    then have n: "digits n = digits (n div 10) @ [digit (n mod 10)]"
      by (subst digits.simps) simp
    show ?thesis
    proof (cases "m < 10")
      case True
      then have "digits m = [digit m]"
        by (subst digits.simps) simp
      with n "1.prems" have "digits (n div 10) = []" by simp
      then show ?thesis by (simp add: digits_not_Nil)
    next
      case m10: False
      then have "digits m = digits (m div 10) @ [digit (m mod 10)]"
        by (subst digits.simps) simp
      with n "1.prems" have a: "digits (n div 10) = digits (m div 10)"
        and b: "digit (n mod 10) = digit (m mod 10)"
        by simp_all
      from a have "n div 10 = m div 10"
        by (rule "1.IH" [OF False])
      moreover from b have "n mod 10 = m mod 10"
        by (intro digit_inj) simp_all
      ultimately show ?thesis
        by (metis div_mult_mod_eq)
    qed
  qed
qed

lemma fmt_d_no_bar: "CHR ''|'' \<notin> set (fmt_d i)"
  using digits_chars by (auto simp: fmt_d_def)

lemma fmt_d_inj: "fmt_d i = fmt_d j \<Longrightarrow> i = j"
proof -
  have hd_digits: "hd (digits n) \<noteq> CHR ''-''" for n
    using digits_chars [of "hd (digits n)" n] digits_not_Nil [of n] by simp
  assume eq: "fmt_d i = fmt_d j"
  show ?thesis
  proof (cases "i < 0")
    case True
    show ?thesis
    proof (cases "j < 0")
      case j: True
      with True eq have "digits (nat (- i)) = digits (nat (- j))"
        by (simp add: fmt_d_def)
      then have "nat (- i) = nat (- j)" by (rule digits_inj)
      with True j show ?thesis by simp
    next
      case False
      with True eq have "CHR ''-'' # digits (nat (- i)) = digits (nat j)"
        by (simp add: fmt_d_def)
      then have "hd (digits (nat j)) = CHR ''-''"
        by (metis list.sel(1))
      with hd_digits show ?thesis by simp
    qed
  next
    case False
    show ?thesis
    proof (cases "j < 0")
      case True
      with False eq have "digits (nat i) = CHR ''-'' # digits (nat (- j))"
        by (simp add: fmt_d_def)
      then have "hd (digits (nat i)) = CHR ''-''"
        by (metis list.sel(1))
      with hd_digits show ?thesis by simp
    next
      case j: False
      with False eq have "digits (nat i) = digits (nat j)"
        by (simp add: fmt_d_def)
      then have "nat i = nat j" by (rule digits_inj)
      with False j show ?thesis by simp
    qed
  qed
qed

text \<open>A separator that does not occur after its last use splits a string in one way only.\<close>

lemma first_sep_unique:
  "c \<notin> set a \<Longrightarrow> c \<notin> set a' \<Longrightarrow> a @ c # b = a' @ c # b' \<Longrightarrow> a = a' \<and> b = b'"
proof (induction a arbitrary: a')
  case Nil
  then show ?case by (cases a') auto
next
  case (Cons x a)
  then show ?case by (cases a') auto
qed

lemma last_sep_unique:
  assumes "c \<notin> set b" and "c \<notin> set b'" and "a @ c # b = a' @ c # b'"
  shows "a = a' \<and> b = b'"
proof -
  from assms(3) have "rev (a @ c # b) = rev (a' @ c # b')" by simp
  then have "rev b @ c # rev a = rev b' @ c # rev a'" by simp
  moreover have "c \<notin> set (rev b)" "c \<notin> set (rev b')"
    using assms(1,2) by simp_all
  ultimately have "rev b = rev b' \<and> rev a = rev a'"
    by (rule first_sep_unique [rotated 2])
  then show ?thesis by simp
qed

lemma buildKey_eq_iff:
  "buildKey e k c1 = buildKey e k c2 \<longleftrightarrow>
   Method c1 = Method c2 \<and> Rate c1 = Rate c2 \<and> Period c1 = Period c2"
proof
  assume "buildKey e k c1 = buildKey e k c2"
  then have eq: "(Method c1 @ CHR ''|'' # fmt_d (Rate c1)) @ CHR ''|'' # fmt_d (Period c1) =
                 (Method c2 @ CHR ''|'' # fmt_d (Rate c2)) @ CHR ''|'' # fmt_d (Period c2)"
    by (simp add: buildKey_def)
  have 1: "Method c1 @ CHR ''|'' # fmt_d (Rate c1) = Method c2 @ CHR ''|'' # fmt_d (Rate c2)"
    and 2: "fmt_d (Period c1) = fmt_d (Period c2)"
    using last_sep_unique [OF fmt_d_no_bar fmt_d_no_bar eq] by simp_all
  have 3: "Method c1 = Method c2" and 4: "fmt_d (Rate c1) = fmt_d (Rate c2)"
    using last_sep_unique [OF fmt_d_no_bar fmt_d_no_bar 1] by simp_all
  from 2 3 4 show "Method c1 = Method c2 \<and> Rate c1 = Rate c2 \<and> Period c1 = Period c2"
    by (simp add: fmt_d_inj)
next
  assume "Method c1 = Method c2 \<and> Rate c1 = Rate c2 \<and> Period c1 = Period c2"
  then show "buildKey e k c1 = buildKey e k c2"
    by (simp add: buildKey_def)
qed

lemma buildKey_TTL: "buildKey e k (cfg\<lparr>TTL := x\<rparr>) = buildKey e k cfg"
  by (simp add: buildKey_def)

lemma buildKey_Resource: "buildKey e k (cfg\<lparr>Resource := x\<rparr>) = buildKey e k cfg"
  by (simp add: buildKey_def)

section \<open>Properties of the store\<close>

lemma store_ok_NewStore: "store_ok NewStore emptyHeap"
  by (simp add: store_ok_def NewStore_def)

lemma GetOrCreate_hit:
  "limiters s (buildKey e k cfg) = Some entry \<Longrightarrow>
   GetOrCreate s h e k cfg now now' =
     (limiter entry,
      s\<lparr>limiters := (limiters s)(buildKey e k cfg \<mapsto> entry\<lparr>lastUsed := now\<rparr>)\<rparr>, h)"
  by (simp add: GetOrCreate_def)

lemma GetOrCreate_miss:
  "limiters s (buildKey e k cfg) = None \<Longrightarrow>
   GetOrCreate s h e k cfg now now' =
     (nextRef h,
      s\<lparr>limiters := (limiters s)(buildKey e k cfg \<mapsto>
          \<lparr>limiter = nextRef h, lastUsed = now, ttl = GetTTL cfg\<rparr>)\<rparr>,
      h\<lparr>objects := (objects h)(nextRef h \<mapsto>
           (if Method cfg = MethodFixedWindow
            then FixedWindowOf (NewFixedWindow (Rate cfg) (Period cfg) now')
            else TokenBucketOf (NewTokenBucket (Rate cfg) (Period cfg) now'))),
        nextRef := Suc (nextRef h)\<rparr>)"
  by (simp add: GetOrCreate_def new_def MethodTokenBucket_def MethodFixedWindow_def)

text \<open>After a call the key holds the returned reference, last used at the call.\<close>

lemma GetOrCreate_entry:
  assumes "GetOrCreate s h e k cfg now now' = (l, s', h')"
  shows "\<exists>entry. limiters s' (buildKey e k cfg) = Some entry \<and> limiter entry = l \<and>
           lastUsed entry = now \<and>
           ttl entry = (case limiters s (buildKey e k cfg) of
                          None \<Rightarrow> GetTTL cfg | Some old \<Rightarrow> ttl old)"
proof (cases "limiters s (buildKey e k cfg)")
  case None
  from assms show ?thesis
    unfolding GetOrCreate_miss [OF None] using None by auto
next
  case (Some entry)
  from assms show ?thesis
    unfolding GetOrCreate_hit [OF Some] using Some by auto
qed

lemma GetOrCreate_other:
  assumes "GetOrCreate s h e k cfg now now' = (l, s', h')" and "key \<noteq> buildKey e k cfg"
  shows "limiters s' key = limiters s key"
proof (cases "limiters s (buildKey e k cfg)")
  case None
  from assms show ?thesis
    unfolding GetOrCreate_miss [OF None] by auto
next
  case (Some entry)
  from assms show ?thesis
    unfolding GetOrCreate_hit [OF Some] by auto
qed

lemma store_ok_GetOrCreate:
  assumes ok: "store_ok s h" and call: "GetOrCreate s h e k cfg now now' = (l, s', h')"
  shows "store_ok s' h'"
proof (cases "limiters s (buildKey e k cfg)")
  case None
  from call have s': "s' = s\<lparr>limiters := (limiters s)(buildKey e k cfg \<mapsto>
        \<lparr>limiter = nextRef h, lastUsed = now, ttl = GetTTL cfg\<rparr>)\<rparr>"
    and h': "nextRef h' = Suc (nextRef h)"
    unfolding GetOrCreate_miss [OF None] by auto
  have fresh: "limiter x < nextRef h" if "limiters s key = Some x" for key x
    using ok that unfolding store_ok_def by blast
  have inj: "key = key'"
    if "limiters s key = Some x" "limiters s key' = Some x'" "limiter x = limiter x'"
    for key key' x x'
    using ok that unfolding store_ok_def by blast
  show ?thesis
    unfolding store_ok_def
  proof (intro conjI allI impI)
    fix key x
    assume "limiters s' key = Some x"
    then show "limiter x < nextRef h'"
      using fresh [of key x] by (auto simp: s' h' less_Suc_eq split: if_splits)
  next
    fix key key' x x'
    assume "limiters s' key = Some x" "limiters s' key' = Some x'" "limiter x = limiter x'"
    then show "key = key'"
      using fresh [of key x] fresh [of key' x'] inj [of key x key' x']
      by (auto simp: s' split: if_splits)
  qed
next
  case (Some entry)
  from call have s': "s' = s\<lparr>limiters := (limiters s)(buildKey e k cfg \<mapsto>
        entry\<lparr>lastUsed := now\<rparr>)\<rparr>"
    and h': "h' = h"
    unfolding GetOrCreate_hit [OF Some] by auto
  have fresh: "limiter x < nextRef h" if "limiters s key = Some x" for key x
    using ok that unfolding store_ok_def by blast
  have inj: "key = key'"
    if "limiters s key = Some x" "limiters s key' = Some x'" "limiter x = limiter x'"
    for key key' x x'
    using ok that unfolding store_ok_def by blast
  show ?thesis
    unfolding store_ok_def
  proof (intro conjI allI impI)
    fix key x
    assume "limiters s' key = Some x"
    then show "limiter x < nextRef h'"
      using fresh [of key x] fresh [OF Some] by (auto simp: s' h' split: if_splits)
  next
    fix key key' x x'
    assume "limiters s' key = Some x" "limiters s' key' = Some x'" "limiter x = limiter x'"
    then show "key = key'"
      using inj [of key x key' x'] inj [OF Some, of key' x'] inj [of key x, OF _ Some]
      by (auto simp: s' split: if_splits)
  qed
qed

lemma cleanup_lookup:
  "limiters (cleanup s now) key =
     (case limiters s key of
        None \<Rightarrow> None
      | Some entry \<Rightarrow> if ttl entry < Sub now (lastUsed entry) then None else Some entry)"
  by (simp add: cleanup_def)

lemma store_ok_cleanup: "store_ok s h \<Longrightarrow> store_ok (cleanup s now) h"
  unfolding store_ok_def cleanup_lookup
  by (auto split: option.splits if_splits)

lemma GetOrCreate_twice_same:
  assumes "GetOrCreate s h e k cfg t1 t1' = (l1, s1, h1)"
    and "GetOrCreate s1 h1 e k cfg' t2 t2' = (l2, s2, h2)"
    and "buildKey e k cfg' = buildKey e k cfg"
  shows "l2 = l1 \<and> h2 = h1 \<and>
         map_option ttl (limiters s2 (buildKey e k cfg)) =
           map_option ttl (limiters s1 (buildKey e k cfg)) \<and>
         map_option lastUsed (limiters s2 (buildKey e k cfg)) = Some t2"
proof -
  from GetOrCreate_entry [OF assms(1)] obtain entry
    where entry: "limiters s1 (buildKey e k cfg) = Some entry" "limiter entry = l1"
    by blast
  from entry(1) have "limiters s1 (buildKey e k cfg') = Some entry"
    by (simp add: assms(3))
  from assms(2) [unfolded GetOrCreate_hit [OF this]] entry show ?thesis
    by (auto simp: assms(3))
qed

lemma GetOrCreate_twice_distinct:
  assumes ok: "store_ok s h"
    and 1: "GetOrCreate s h e k cfg t1 t1' = (l1, s1, h1)"
    and 2: "GetOrCreate s1 h1 e k cfg' t2 t2' = (l2, s2, h2)"
    and keys: "buildKey e k cfg' \<noteq> buildKey e k cfg"
  shows "l2 \<noteq> l1"
proof
  assume same: "l2 = l1"
  have ok2: "store_ok s2 h2"
    using store_ok_GetOrCreate [OF store_ok_GetOrCreate [OF ok 1] 2] .
  from GetOrCreate_entry [OF 1] obtain entry1
    where e1: "limiters s1 (buildKey e k cfg) = Some entry1" "limiter entry1 = l1"
    by blast
  from GetOrCreate_entry [OF 2] obtain entry2
    where e2: "limiters s2 (buildKey e k cfg') = Some entry2" "limiter entry2 = l2"
    by blast
  have s2k: "limiters s2 (buildKey e k cfg) = Some entry1"
    using GetOrCreate_other [OF 2, of "buildKey e k cfg"] keys e1(1) by simp
  have inj: "key = key'"
    if "limiters s2 key = Some x" "limiters s2 key' = Some x'" "limiter x = limiter x'"
    for key key' x x'
    using ok2 that unfolding store_ok_def by blast
  have "buildKey e k cfg' = buildKey e k cfg"
    by (rule inj [OF e2(1) s2k]) (simp add: e2(2) e1(2) same)
  with keys show False by simp
qed

text \<open>
  C10.  A call that finds an entry for its key returns the entry's limiter and leaves the
  heap of limiter objects as it was; in the store only that entry changes, and in it only
  \<open>lastUsed\<close>.  The key does not depend on the directive's \<open>ttl\<close>: after a first call has
  created the entry, a call whose directive differs in \<open>ttl\<close> only returns the same limiter
  and the entry keeps the TTL of the directive that created it.
\<close>

theorem GetOrCreate_existing_entry_frame:
  "(limiters s (buildKey e k cfg) = Some entry \<longrightarrow>
      GetOrCreate s h e k cfg now now' =
        (limiter entry,
         s\<lparr>limiters := (limiters s)(buildKey e k cfg \<mapsto> entry\<lparr>lastUsed := now\<rparr>)\<rparr>, h)) \<and>
   buildKey e k (cfg\<lparr>TTL := x\<rparr>) = buildKey e k cfg \<and>
   (limiters s (buildKey e k cfg) = None \<longrightarrow>
      (case GetOrCreate s h e k cfg t1 t1' of (l1, s1, h1) \<Rightarrow>
         case GetOrCreate s1 h1 e k (cfg\<lparr>TTL := x\<rparr>) t2 t2' of (l2, s2, h2) \<Rightarrow>
           l2 = l1 \<and> h2 = h1 \<and>
           map_option ttl (limiters s2 (buildKey e k cfg)) = Some (GetTTL cfg) \<and>
           map_option lastUsed (limiters s2 (buildKey e k cfg)) = Some t2))"
proof (intro conjI impI)
  assume "limiters s (buildKey e k cfg) = Some entry"
  then show "GetOrCreate s h e k cfg now now' =
      (limiter entry,
       s\<lparr>limiters := (limiters s)(buildKey e k cfg \<mapsto> entry\<lparr>lastUsed := now\<rparr>)\<rparr>, h)"
    by (rule GetOrCreate_hit)
next
  show "buildKey e k (cfg\<lparr>TTL := x\<rparr>) = buildKey e k cfg"
    by (rule buildKey_TTL)
next
  assume none: "limiters s (buildKey e k cfg) = None"
  obtain l1 s1 h1 where 1: "GetOrCreate s h e k cfg t1 t1' = (l1, s1, h1)"
    by (cases "GetOrCreate s h e k cfg t1 t1'") auto
  obtain l2 s2 h2 where 2: "GetOrCreate s1 h1 e k (cfg\<lparr>TTL := x\<rparr>) t2 t2' = (l2, s2, h2)"
    by (cases "GetOrCreate s1 h1 e k (cfg\<lparr>TTL := x\<rparr>) t2 t2'") auto
  from GetOrCreate_entry [OF 1] none
  have "map_option ttl (limiters s1 (buildKey e k cfg)) = Some (GetTTL cfg)"
    by auto
  with GetOrCreate_twice_same [OF 1 2 buildKey_TTL]
  show "case GetOrCreate s h e k cfg t1 t1' of (l1, s1, h1) \<Rightarrow>
         case GetOrCreate s1 h1 e k (cfg\<lparr>TTL := x\<rparr>) t2 t2' of (l2, s2, h2) \<Rightarrow>
           l2 = l1 \<and> h2 = h1 \<and>
           map_option ttl (limiters s2 (buildKey e k cfg)) = Some (GetTTL cfg) \<and>
           map_option lastUsed (limiters s2 (buildKey e k cfg)) = Some t2"
    by (simp add: 1 2)
qed

theorem GetOrCreate_existing_entry_frame_witness:
  "GetOrCreate
     (oneEntry (buildKey ''192.168.1.1'' ''example.com'' directive)
        \<lparr>limiter = 0, lastUsed = 5, ttl = 7\<rparr>)
     \<lparr>objects = Map.empty(0 \<mapsto> FixedWindowOf (NewFixedWindow 10 60 5)), nextRef = 1\<rparr>
     ''192.168.1.1'' ''example.com'' directive 9 9 =
     (0,
      oneEntry (buildKey ''192.168.1.1'' ''example.com'' directive)
        \<lparr>limiter = 0, lastUsed = 9, ttl = 7\<rparr>,
      \<lparr>objects = Map.empty(0 \<mapsto> FixedWindowOf (NewFixedWindow 10 60 5)), nextRef = 1\<rparr>) \<and>
   (case GetOrCreate NewStore emptyHeap ''192.168.1.1'' ''example.com'' directive 0 0 of
      (l1, s1, h1) \<Rightarrow>
        case GetOrCreate s1 h1 ''192.168.1.1'' ''example.com'' (directive\<lparr>TTL := 600\<rparr>) 3 3 of
          (l2, s2, h2) \<Rightarrow>
            l2 = l1 \<and> h2 = h1 \<and>
            map_option ttl (limiters s2 (buildKey ''192.168.1.1'' ''example.com'' directive)) =
              Some 1000000000)"
  using GetOrCreate_existing_entry_frame
    [where s = "oneEntry (buildKey ''192.168.1.1'' ''example.com'' directive)
                  \<lparr>limiter = 0, lastUsed = 5, ttl = 7\<rparr>"
       and e = "''192.168.1.1''" and k = "''example.com''" and cfg = directive
       and entry = "\<lparr>limiter = 0, lastUsed = 5, ttl = 7\<rparr>"
       and h = "\<lparr>objects = Map.empty(0 \<mapsto> FixedWindowOf (NewFixedWindow 10 60 5)),
                 nextRef = 1\<rparr>"
       and now = 9 and now' = 9 and x = 600]
    GetOrCreate_existing_entry_frame
    [where s = NewStore and e = "''192.168.1.1''" and k = "''example.com''"
       and cfg = directive and h = emptyHeap and x = 600 and ?t1.0 = 0 and t1' = 0
       and ?t2.0 = 3 and t2' = 3]
  by (simp add: oneEntry_def NewStore_def GetTTL_def wrap64_def Second_def directive_def
      split: prod.splits)

text \<open>
  C4 (as the code has it).  A sweep removes an entry exactly when \<open>now - lastUsed > ttl\<close> at
  the sweep and leaves every other entry as it is.  Every \<open>GetOrCreate\<close> sets \<open>lastUsed\<close> of
  its key's entry to the clock reading of the call, so whether the entry survives a later
  sweep depends on the time since the last call only: an entry created at \<open>t0\<close> and looked
  up at \<open>t1\<close> survives a sweep at \<open>t2\<close> when \<open>t2 - t1 \<le> ttl\<close>, also when \<open>t2 - t0 > ttl\<close>, where
  the entry never looked up again is removed.  The TTL of a new entry is that of the
  directive: 300 seconds when \<open>ttl \<le> 0\<close>, and \<open>ttl\<close> seconds when \<open>0 < ttl \<le> 9223372036\<close>
  (the duration is 64 bits of nanoseconds).
\<close>

theorem cleanup_removes_expired_sliding_ttl:
  "limiters (cleanup s now) key =
     (case limiters s key of
        None \<Rightarrow> None
      | Some entry \<Rightarrow> if ttl entry < Sub now (lastUsed entry) then None else Some entry) \<and>
   (case GetOrCreate s h e k cfg t1 t1' of (l1, s1, h1) \<Rightarrow>
      map_option lastUsed (limiters s1 (buildKey e k cfg)) = Some t1 \<and>
      (\<forall>entry. limiters s1 (buildKey e k cfg) = Some entry \<longrightarrow>
         limiters (cleanup s1 t2) (buildKey e k cfg) =
           (if ttl entry < Sub t2 t1 then None else Some entry))) \<and>
   (limiters s (buildKey e k cfg) = None \<longrightarrow>
      (case GetOrCreate s h e k cfg t0 t0' of (l0, s0, h0) \<Rightarrow>
         map_option ttl (limiters s0 (buildKey e k cfg)) = Some (GetTTL cfg) \<and>
         (GetTTL cfg < Sub t2 t0 \<longrightarrow> limiters (cleanup s0 t2) (buildKey e k cfg) = None) \<and>
         (case GetOrCreate s0 h0 e k cfg t1 t1' of (l1, s1, h1) \<Rightarrow>
            (Sub t2 t1 \<le> GetTTL cfg \<longrightarrow>
               limiters (cleanup s1 t2) (buildKey e k cfg) =
                 Some \<lparr>limiter = l0, lastUsed = t1, ttl = GetTTL cfg\<rparr>)))) \<and>
   (TTL cfg \<le> 0 \<longrightarrow> GetTTL cfg = 300 * Second) \<and>
   (0 < TTL cfg \<and> TTL cfg \<le> 9223372036 \<longrightarrow> GetTTL cfg = TTL cfg * Second)"
proof (intro conjI)
  show "limiters (cleanup s now) key =
     (case limiters s key of
        None \<Rightarrow> None
      | Some entry \<Rightarrow> if ttl entry < Sub now (lastUsed entry) then None else Some entry)"
    by (rule cleanup_lookup)
next
  obtain l1 s1 h1 where 1: "GetOrCreate s h e k cfg t1 t1' = (l1, s1, h1)"
    by (cases "GetOrCreate s h e k cfg t1 t1'") auto
  from GetOrCreate_entry [OF 1] obtain entry
    where entry: "limiters s1 (buildKey e k cfg) = Some entry" "lastUsed entry = t1"
    by blast
  then show "case GetOrCreate s h e k cfg t1 t1' of (l1, s1, h1) \<Rightarrow>
      map_option lastUsed (limiters s1 (buildKey e k cfg)) = Some t1 \<and>
      (\<forall>entry. limiters s1 (buildKey e k cfg) = Some entry \<longrightarrow>
         limiters (cleanup s1 t2) (buildKey e k cfg) =
           (if ttl entry < Sub t2 t1 then None else Some entry))"
    by (simp add: 1 cleanup_lookup)
next
  show "limiters s (buildKey e k cfg) = None \<longrightarrow>
      (case GetOrCreate s h e k cfg t0 t0' of (l0, s0, h0) \<Rightarrow>
         map_option ttl (limiters s0 (buildKey e k cfg)) = Some (GetTTL cfg) \<and>
         (GetTTL cfg < Sub t2 t0 \<longrightarrow> limiters (cleanup s0 t2) (buildKey e k cfg) = None) \<and>
         (case GetOrCreate s0 h0 e k cfg t1 t1' of (l1, s1, h1) \<Rightarrow>
            (Sub t2 t1 \<le> GetTTL cfg \<longrightarrow>
               limiters (cleanup s1 t2) (buildKey e k cfg) =
                 Some \<lparr>limiter = l0, lastUsed = t1, ttl = GetTTL cfg\<rparr>)))"
  proof
    assume none: "limiters s (buildKey e k cfg) = None"
    let ?s0 = "s\<lparr>limiters := (limiters s)(buildKey e k cfg \<mapsto>
          \<lparr>limiter = nextRef h, lastUsed = t0, ttl = GetTTL cfg\<rparr>)\<rparr>"
    have hit: "limiters ?s0 (buildKey e k cfg) =
        Some \<lparr>limiter = nextRef h, lastUsed = t0, ttl = GetTTL cfg\<rparr>"
      by simp
    show "case GetOrCreate s h e k cfg t0 t0' of (l0, s0, h0) \<Rightarrow>
         map_option ttl (limiters s0 (buildKey e k cfg)) = Some (GetTTL cfg) \<and>
         (GetTTL cfg < Sub t2 t0 \<longrightarrow> limiters (cleanup s0 t2) (buildKey e k cfg) = None) \<and>
         (case GetOrCreate s0 h0 e k cfg t1 t1' of (l1, s1, h1) \<Rightarrow>
            (Sub t2 t1 \<le> GetTTL cfg \<longrightarrow>
               limiters (cleanup s1 t2) (buildKey e k cfg) =
                 Some \<lparr>limiter = l0, lastUsed = t1, ttl = GetTTL cfg\<rparr>))"
      unfolding GetOrCreate_miss [OF none] prod.case GetOrCreate_hit [OF hit]
      by (simp add: cleanup_lookup)
  qed
next
  show "TTL cfg \<le> 0 \<longrightarrow> GetTTL cfg = 300 * Second"
    by (simp add: GetTTL_def DefaultTTL_def)
next
  show "0 < TTL cfg \<and> TTL cfg \<le> 9223372036 \<longrightarrow> GetTTL cfg = TTL cfg * Second"
    by (simp add: GetTTL_def wrap64_def Second_def)
qed

theorem cleanup_removes_expired_sliding_ttl_witness:
  "(case GetOrCreate NewStore emptyHeap ''192.168.1.1'' ''example.com'' directive 0 0 of
      (l0, s0, h0) \<Rightarrow>
        map_option ttl (limiters s0 (buildKey ''192.168.1.1'' ''example.com'' directive)) =
          Some 1000000000 \<and>
        limiters (cleanup s0 1200000000) (buildKey ''192.168.1.1'' ''example.com'' directive) =
          None \<and>
        (case GetOrCreate s0 h0 ''192.168.1.1'' ''example.com'' directive 500000000 500000000 of
           (l1, s1, h1) \<Rightarrow>
             limiters (cleanup s1 1200000000)
               (buildKey ''192.168.1.1'' ''example.com'' directive) =
             Some \<lparr>limiter = l0, lastUsed = 500000000, ttl = 1000000000\<rparr>)) \<and>
   GetTTL (directive\<lparr>TTL := 0\<rparr>) = 300000000000 \<and>
   GetTTL (directive\<lparr>TTL := 120\<rparr>) = 120000000000"
  using cleanup_removes_expired_sliding_ttl
    [where s = NewStore and h = emptyHeap and e = "''192.168.1.1''" and k = "''example.com''"
       and cfg = directive and ?t0.0 = 0 and t0' = 0 and ?t1.0 = 500000000
       and t1' = 500000000 and ?t2.0 = 1200000000]
    cleanup_removes_expired_sliding_ttl [where cfg = "directive\<lparr>TTL := 0\<rparr>"]
    cleanup_removes_expired_sliding_ttl [where cfg = "directive\<lparr>TTL := 120\<rparr>"]
  by (simp add: NewStore_def GetTTL_def wrap64_def Second_def directive_def Sub_def
      minDuration_def maxDuration_def split: prod.splits)

theorem GetTTL_wraps_counterexample:
  "GetTTL (directive\<lparr>TTL := 9223372037\<rparr>) = - 9223372036709551616 \<and>
   GetTTL (directive\<lparr>TTL := 9223372037\<rparr>) \<noteq> 9223372037 * Second \<and>
   (case GetOrCreate NewStore emptyHeap ''192.168.1.1'' ''example.com''
           (directive\<lparr>TTL := 9223372037\<rparr>) 0 0 of
      (l0, s0, h0) \<Rightarrow>
        limiters (cleanup s0 0)
          (buildKey ''192.168.1.1'' ''example.com'' (directive\<lparr>TTL := 9223372037\<rparr>)) = None)"
  by (simp add: GetOrCreate_def new_def NewStore_def cleanup_def GetTTL_def wrap64_def
      Second_def directive_def Sub_def minDuration_def maxDuration_def Let_def
      split: prod.splits)

text \<open>
  C3 (as the code has it).  Two calls with the same egress address, resource key and
  directive return the same reference.  On a store that fits its heap, a second call whose
  directive differs in method, rate or period returns another reference than the first;
  the key holds nothing else of the directive.  A directive whose method is neither
  \<open>token_bucket\<close> nor \<open>fixed_window\<close> creates a token bucket.
\<close>

theorem GetOrCreate_same_key_same_limiter:
  "(case GetOrCreate s h e k cfg t1 t1' of (l1, s1, h1) \<Rightarrow>
      case GetOrCreate s1 h1 e k cfg t2 t2' of (l2, s2, h2) \<Rightarrow> l2 = l1 \<and> h2 = h1) \<and>
   (store_ok s h \<and>
    (Method cfg' \<noteq> Method cfg \<or> Rate cfg' \<noteq> Rate cfg \<or> Period cfg' \<noteq> Period cfg) \<longrightarrow>
      (case GetOrCreate s h e k cfg t1 t1' of (l1, s1, h1) \<Rightarrow>
         case GetOrCreate s1 h1 e k cfg' t2 t2' of (l2, s2, h2) \<Rightarrow> l2 \<noteq> l1)) \<and>
   (limiters s (buildKey e k cfg) = None \<and>
    Method cfg \<noteq> MethodTokenBucket \<and> Method cfg \<noteq> MethodFixedWindow \<longrightarrow>
      (case GetOrCreate s h e k cfg t1 t1' of (l1, s1, h1) \<Rightarrow>
         objects h1 l1 = Some (TokenBucketOf (NewTokenBucket (Rate cfg) (Period cfg) t1'))))"
proof (intro conjI impI)
  obtain l1 s1 h1 where 1: "GetOrCreate s h e k cfg t1 t1' = (l1, s1, h1)"
    by (cases "GetOrCreate s h e k cfg t1 t1'") auto
  obtain l2 s2 h2 where 2: "GetOrCreate s1 h1 e k cfg t2 t2' = (l2, s2, h2)"
    by (cases "GetOrCreate s1 h1 e k cfg t2 t2'") auto
  from GetOrCreate_twice_same [OF 1 2 refl]
  show "case GetOrCreate s h e k cfg t1 t1' of (l1, s1, h1) \<Rightarrow>
      case GetOrCreate s1 h1 e k cfg t2 t2' of (l2, s2, h2) \<Rightarrow> l2 = l1 \<and> h2 = h1"
    by (simp add: 1 2)
next
  assume a: "store_ok s h \<and>
    (Method cfg' \<noteq> Method cfg \<or> Rate cfg' \<noteq> Rate cfg \<or> Period cfg' \<noteq> Period cfg)"
  obtain l1 s1 h1 where 1: "GetOrCreate s h e k cfg t1 t1' = (l1, s1, h1)"
    by (cases "GetOrCreate s h e k cfg t1 t1'") auto
  obtain l2 s2 h2 where 2: "GetOrCreate s1 h1 e k cfg' t2 t2' = (l2, s2, h2)"
    by (cases "GetOrCreate s1 h1 e k cfg' t2 t2'") auto
  from a have "buildKey e k cfg' \<noteq> buildKey e k cfg"
    by (simp add: buildKey_eq_iff)
  with a have "l2 \<noteq> l1"
    by (intro GetOrCreate_twice_distinct [OF _ 1 2]) simp_all
  then show "case GetOrCreate s h e k cfg t1 t1' of (l1, s1, h1) \<Rightarrow>
         case GetOrCreate s1 h1 e k cfg' t2 t2' of (l2, s2, h2) \<Rightarrow> l2 \<noteq> l1"
    by (simp add: 1 2)
next
  assume "limiters s (buildKey e k cfg) = None \<and>
    Method cfg \<noteq> MethodTokenBucket \<and> Method cfg \<noteq> MethodFixedWindow"
  then show "case GetOrCreate s h e k cfg t1 t1' of (l1, s1, h1) \<Rightarrow>
         objects h1 l1 = Some (TokenBucketOf (NewTokenBucket (Rate cfg) (Period cfg) t1'))"
    by (simp add: GetOrCreate_miss)
qed

theorem GetOrCreate_same_key_same_limiter_witness:
  "store_ok NewStore emptyHeap \<and>
   (case GetOrCreate NewStore emptyHeap ''192.168.1.1'' ''example.com'' directive 0 0 of
      (l1, s1, h1) \<Rightarrow>
        case GetOrCreate s1 h1 ''192.168.1.1'' ''example.com'' (directive\<lparr>Rate := 11\<rparr>) 1 1 of
          (l2, s2, h2) \<Rightarrow> l2 \<noteq> l1) \<and>
   (case GetOrCreate NewStore emptyHeap ''192.168.1.1'' ''example.com''
           (directive\<lparr>Method := ''leaky_bucket''\<rparr>) 0 0 of
      (l1, s1, h1) \<Rightarrow> objects h1 l1 = Some (TokenBucketOf (NewTokenBucket 10 60 0)))"
  using GetOrCreate_same_key_same_limiter
    [where s = NewStore and h = emptyHeap and e = "''192.168.1.1''" and k = "''example.com''"
       and cfg = directive and cfg' = "directive\<lparr>Rate := 11\<rparr>" and ?t1.0 = 0 and t1' = 0
       and ?t2.0 = 1 and t2' = 1]
    GetOrCreate_same_key_same_limiter
    [where s = NewStore and h = emptyHeap and e = "''192.168.1.1''" and k = "''example.com''"
       and cfg = "directive\<lparr>Method := ''leaky_bucket''\<rparr>" and ?t1.0 = 0 and t1' = 0]
    store_ok_NewStore
  by (simp add: NewStore_def directive_def MethodTokenBucket_def MethodFixedWindow_def
      split: prod.splits)

theorem GetOrCreate_ttl_not_in_key_counterexample:
  "directive\<lparr>TTL := 600\<rparr> \<noteq> directive \<and>
   (case GetOrCreate NewStore emptyHeap ''192.168.1.1'' ''example.com'' directive 0 0 of
      (l1, s1, h1) \<Rightarrow>
        case GetOrCreate s1 h1 ''192.168.1.1'' ''example.com'' (directive\<lparr>TTL := 600\<rparr>) 1 1 of
          (l2, s2, h2) \<Rightarrow> l2 = l1)"
  by (simp add: GetOrCreate_def new_def NewStore_def buildKey_def directive_def Let_def
      split: prod.splits)

section \<open>Properties of the header stripping\<close>

lemma fold_Header_Del:
  "fold (\<lambda>f h'. Header_Del canon h' (g f)) xs h name =
     (if name \<in> canon ` g ` set xs then None else h name)"
  by (induction xs arbitrary: h) (auto simp: Header_Del_def)

lemma Header_Get_None: "h (canon n) = None \<Longrightarrow> Header_Get canon h n = []"
  by (simp add: Header_Get_def)

text \<open>
  C7 (what the code does).  After the stripping a header name is absent exactly when it
  is the canonical form of one of the eight fixed names, or of a trimmed element of the
  comma-separated first value of \<^verbatim>\<open>Connection\<close>, which is what \<^verbatim>\<open>Get\<close> returns (when it is
  not empty); every other name keeps its values.  So \<^verbatim>\<open>Get\<close> finds no value for any of the
  fixed names nor for any name listed in that first value.  A response with more than
  one \<^verbatim>\<open>Connection\<close> line has more than one value, and a name listed only in a later
  value is kept.
\<close>

theorem removeHopByHopHeaders_first_Connection_value_only:
  "removeHopByHopHeaders canon trim h name =
     (if name \<in> canon ` set hopByHopHeaders \<or>
         (Header_Get canon h ''Connection'' \<noteq> [] \<and>
          name \<in> canon ` trim ` set (Split CHR '','' (Header_Get canon h ''Connection'')))
      then None else h name) \<and>
   (\<forall>n \<in> set hopByHopHeaders.
      Header_Get canon (removeHopByHopHeaders canon trim h) n = []) \<and>
   (\<forall>f \<in> set (Split CHR '','' (Header_Get canon h ''Connection'')).
      Header_Get canon h ''Connection'' \<noteq> [] \<longrightarrow>
      Header_Get canon (removeHopByHopHeaders canon trim h) (trim f) = []) \<and>
   (h (canon ''Connection'') = Some (v # vs) \<and>
    name \<notin> canon ` set hopByHopHeaders \<and>
    name \<notin> canon ` trim ` set (Split CHR '','' v) \<longrightarrow>
    removeHopByHopHeaders canon trim h name = h name)"
proof -
  have eq: "removeHopByHopHeaders canon trim h name =
     (if name \<in> canon ` set hopByHopHeaders \<or>
         (Header_Get canon h ''Connection'' \<noteq> [] \<and>
          name \<in> canon ` trim ` set (Split CHR '','' (Header_Get canon h ''Connection'')))
      then None else h name)" for name
    unfolding removeHopByHopHeaders_def Let_def
    by (simp add: fold_Header_Del [where g = "\<lambda>x. x", simplified] fold_Header_Del)
  have fixed: "Header_Get canon (removeHopByHopHeaders canon trim h) n = []"
    if "n \<in> set hopByHopHeaders" for n
    by (rule Header_Get_None) (use that in \<open>simp add: eq\<close>)
  have listed: "Header_Get canon (removeHopByHopHeaders canon trim h) (trim f) = []"
    if "f \<in> set (Split CHR '','' (Header_Get canon h ''Connection''))"
      and "Header_Get canon h ''Connection'' \<noteq> []" for f
    by (rule Header_Get_None) (use that in \<open>simp add: eq\<close>)
  have later: "removeHopByHopHeaders canon trim h name = h name"
    if "h (canon ''Connection'') = Some (v # vs)"
      and "name \<notin> canon ` set hopByHopHeaders"
      and "name \<notin> canon ` trim ` set (Split CHR '','' v)"
  proof -
    have "Header_Get canon h ''Connection'' = v"
      using that(1) by (simp add: Header_Get_def)
    with that(2,3) show ?thesis
      by (simp add: eq)
  qed
  from eq fixed listed later show ?thesis by blast
qed

text \<open>
  The header of the repository's test, and a response that came with the two lines
  \<^verbatim>\<open>Connection: keep-alive\<close> and \<^verbatim>\<open>Connection: X-Foo\<close>: its header \<^verbatim>\<open>X-Foo\<close> is still there after
  the stripping.
\<close>

theorem removeHopByHopHeaders_first_Connection_value_only_witness:
  "removeHopByHopHeaders testCanon testTrim testHeader ''Connection'' = None \<and>
   removeHopByHopHeaders testCanon testTrim testHeader ''Keep-Alive'' = None \<and>
   removeHopByHopHeaders testCanon testTrim testHeader ''X-Custom'' = None \<and>
   removeHopByHopHeaders testCanon testTrim testHeader ''Content-Type'' =
     Some [''application/json''] \<and>
   Header_Get testCanon (removeHopByHopHeaders testCanon testTrim testHeader) ''Upgrade'' = [] \<and>
   Header_Get testCanon (removeHopByHopHeaders testCanon testTrim testHeader)
     (testTrim '' X-Custom'') = [] \<and>
   twoConnections ''Connection'' = Some [''keep-alive'', ''X-Foo''] \<and>
   removeHopByHopHeaders testCanon testTrim twoConnections ''Connection'' = None \<and>
   removeHopByHopHeaders testCanon testTrim twoConnections ''Keep-Alive'' = None \<and>
   removeHopByHopHeaders testCanon testTrim twoConnections ''X-Foo'' = Some [''v'']"
proof -
  note inst = removeHopByHopHeaders_first_Connection_value_only
    [where canon = testCanon and trim = testTrim and h = testHeader]
  note inst2 = removeHopByHopHeaders_first_Connection_value_only
    [where canon = testCanon and trim = testTrim and h = twoConnections]
  have c: "Header_Get testCanon testHeader ''Connection'' = ''keep-alive, X-Custom''"
    by (simp add: Header_Get_def testHeader_def testCanon_def)
  have s: "Split CHR '','' ''keep-alive, X-Custom'' = [''keep-alive'', '' X-Custom'']"
    by simp
  have t: "testTrim ''keep-alive'' = ''keep-alive''" "testTrim '' X-Custom'' = ''X-Custom''"
    by (simp_all add: testTrim_def)
  have 1: "removeHopByHopHeaders testCanon testTrim testHeader ''Connection'' = None"
    using inst [of "''Connection''"] by (simp add: hopByHopHeaders_def testCanon_def)
  have 2: "removeHopByHopHeaders testCanon testTrim testHeader ''Keep-Alive'' = None"
    using inst [of "''Keep-Alive''"] by (simp add: hopByHopHeaders_def testCanon_def)
  have 3: "removeHopByHopHeaders testCanon testTrim testHeader ''X-Custom'' = None"
    using inst [of "''X-Custom''"] by (simp add: c s t testCanon_def)
  have 4: "removeHopByHopHeaders testCanon testTrim testHeader ''Content-Type'' =
      Some [''application/json'']"
  proof -
    have "removeHopByHopHeaders testCanon testTrim testHeader ''Content-Type'' =
        testHeader ''Content-Type''"
      using inst [of "''Content-Type''", THEN conjunct1]
      by (simp add: c s t testCanon_def hopByHopHeaders_def)
    then show ?thesis by (simp add: testHeader_def)
  qed
  have 5: "Header_Get testCanon (removeHopByHopHeaders testCanon testTrim testHeader)
      ''Upgrade'' = []"
    using inst [of undefined] by (simp add: hopByHopHeaders_def)
  have 6: "Header_Get testCanon (removeHopByHopHeaders testCanon testTrim testHeader)
      (testTrim '' X-Custom'') = []"
    using inst [of undefined] by (simp add: c s)
  have 7: "twoConnections ''Connection'' = Some [''keep-alive'', ''X-Foo'']"
    by (simp add: twoConnections_def)
  have 8: "removeHopByHopHeaders testCanon testTrim twoConnections ''Connection'' = None"
    using inst2 [of "''Connection''"] by (simp add: hopByHopHeaders_def testCanon_def)
  have 9: "removeHopByHopHeaders testCanon testTrim twoConnections ''Keep-Alive'' = None"
    using inst2 [of "''Keep-Alive''"] by (simp add: hopByHopHeaders_def testCanon_def)
  have 10: "removeHopByHopHeaders testCanon testTrim twoConnections ''X-Foo'' = Some [''v'']"
  proof -
    have pre: "twoConnections (testCanon ''Connection'') = Some (''keep-alive'' # [''X-Foo'']) \<and>
        ''X-Foo'' \<notin> testCanon ` set hopByHopHeaders \<and>
        ''X-Foo'' \<notin> testCanon ` testTrim ` set (Split CHR '','' ''keep-alive'')"
      by (simp add: twoConnections_def testCanon_def hopByHopHeaders_def t)
    have "removeHopByHopHeaders testCanon testTrim twoConnections ''X-Foo'' =
        twoConnections ''X-Foo''"
      using inst2 [of "''X-Foo''" "''keep-alive''" "[''X-Foo'']",
          THEN conjunct2, THEN conjunct2, THEN conjunct2] pre
      by (rule mp)
    then show ?thesis by (simp add: twoConnections_def)
  qed
  from 1 2 3 4 5 6 7 8 9 10 show ?thesis by simp
qed

section \<open>Properties of the egress selection\<close>

lemma GetAvailableIPs_hostEnv:
  "GetAvailableIPs hostEnv \<lparr>AllowedInterfaces = [''eth0'']\<rparr> =
     Some [\<lparr>Interface = ''eth0'', IP = ''10.0.0.1'', Version = 4\<rparr>,
           \<lparr>Interface = ''eth0'', IP = ''10.0.0.2'', Version = 4\<rparr>]"
  by (simp add: GetAvailableIPs_def hostEnv_def)

lemma GetAvailableIPs_hostEnv_none:
  "GetAvailableIPs hostEnv \<lparr>AllowedInterfaces = [''eth1'']\<rparr> = Some []"
  by (simp add: GetAvailableIPs_def hostEnv_def)

lemma GetAvailableIPs_rand: "GetAvailableIPs (env\<lparr>rand := i\<rparr>) c = GetAvailableIPs env c"
  by (simp add: GetAvailableIPs_def cong del: option.case_cong_weak if_weak_cong)

lemma handleProxy_error:
  "handleProxy_egress env config r = Inl status \<Longrightarrow>
   handleProxy env config s h now now' now'' r = (Error status [], s, h)"
  by (simp add: handleProxy_def)

text \<open>
  C9.  With no configuration the first part of \<^verbatim>\<open>handleProxy\<close> never asks whether the
  address is permitted: a header that parses is taken as the egress address, a header
  that does not parse is a bad request, and the answer is never Forbidden.  The
  internal server error is the answer exactly when the header is absent; this holds for
  the whole handler too, whose later errors are 400 and 429.
\<close>

theorem handleProxy_nil_config_skips_permission_check:
  "handleProxy_egress env None r =
     (if X_Egress_IP r = [] then Inl StatusInternalServerError
      else case ParseIP env (X_Egress_IP r) of
             None \<Rightarrow> Inl StatusBadRequest
           | Some localIP \<Rightarrow> Inr (X_Egress_IP r, localIP)) \<and>
   handleProxy_egress env None r \<noteq> Inl StatusForbidden \<and>
   fst (handleProxy env None s h now now' now'' r) \<noteq> Error StatusForbidden hdrs \<and>
   (fst (handleProxy env None s h now now' now'' r) = Error StatusInternalServerError hdrs
      \<longleftrightarrow> X_Egress_IP r = [] \<and> hdrs = [])"
proof -
  have eq: "handleProxy_egress env None r =
     (if X_Egress_IP r = [] then Inl StatusInternalServerError
      else case ParseIP env (X_Egress_IP r) of
             None \<Rightarrow> Inl StatusBadRequest
           | Some localIP \<Rightarrow> Inr (X_Egress_IP r, localIP))"
    by (simp add: handleProxy_egress_def)
  have codes: "StatusInternalServerError \<noteq> StatusForbidden" "StatusBadRequest \<noteq> StatusForbidden"
    "StatusTooManyRequests \<noteq> StatusForbidden" "StatusBadRequest \<noteq> StatusInternalServerError"
    "StatusTooManyRequests \<noteq> StatusInternalServerError"
    by (simp_all add: StatusInternalServerError_def StatusForbidden_def StatusBadRequest_def
        StatusTooManyRequests_def)
  have 2: "handleProxy_egress env None r \<noteq> Inl StatusForbidden"
    unfolding eq using codes by (simp split: option.splits)
  have 3: "fst (handleProxy env None s h now now' now'' r) \<noteq> Error StatusForbidden hdrs"
    unfolding handleProxy_def eq using codes
    by (simp add: Let_def split: option.splits prod.splits)
  have 4: "fst (handleProxy env None s h now now' now'' r) = Error StatusInternalServerError hdrs
      \<longleftrightarrow> X_Egress_IP r = [] \<and> hdrs = []"
    unfolding handleProxy_def eq using codes
    by (auto simp: Let_def split: option.splits prod.splits)
  from eq 2 3 4 show ?thesis by blast
qed

theorem handleProxy_nil_config_skips_permission_check_witness:
  "handleProxy_egress hostEnv None (request ''10.255.255.255'') = Inr (''10.255.255.255'', 3) \<and>
   \<not> IsIPAllowed hostEnv \<lparr>AllowedInterfaces = [''eth0'']\<rparr> ''10.255.255.255'' \<and>
   handleProxy_egress hostEnv None (request ''not-an-ip'') = Inl StatusBadRequest \<and>
   handleProxy_egress hostEnv None (request []) = Inl StatusInternalServerError \<and>
   fst (handleProxy hostEnv None NewStore emptyHeap 0 0 0 (request [])) =
     Error StatusInternalServerError []"
proof -
  have 1: "handleProxy_egress hostEnv None (request ''10.255.255.255'') =
      Inr (''10.255.255.255'', 3)"
    using handleProxy_nil_config_skips_permission_check
      [where env = hostEnv and r = "request ''10.255.255.255''", THEN conjunct1]
    by (simp add: request_def hostEnv_def)
  have 2: "\<not> IsIPAllowed hostEnv \<lparr>AllowedInterfaces = [''eth0'']\<rparr> ''10.255.255.255''"
    by (simp add: IsIPAllowed_def hostEnv_def)
  have 3: "handleProxy_egress hostEnv None (request ''not-an-ip'') = Inl StatusBadRequest"
    using handleProxy_nil_config_skips_permission_check
      [where env = hostEnv and r = "request ''not-an-ip''", THEN conjunct1]
    by (simp add: request_def hostEnv_def)
  have 4: "handleProxy_egress hostEnv None (request []) = Inl StatusInternalServerError"
    using handleProxy_nil_config_skips_permission_check
      [where env = hostEnv and r = "request []", THEN conjunct1]
    by (simp add: request_def)
  have 5: "fst (handleProxy hostEnv None NewStore emptyHeap 0 0 0 (request [])) =
      Error StatusInternalServerError []"
    using handleProxy_nil_config_skips_permission_check
      [where env = hostEnv and r = "request []" and s = NewStore and h = emptyHeap
         and now = 0 and now' = 0 and now'' = 0 and hdrs = "[]"]
    by (simp add: request_def)
  from 1 2 3 4 5 show ?thesis by simp
qed

text \<open>
  C6 (as the code has it).  Without the header the answer is the internal server error
  (500) when there is no configuration, when the list of permitted addresses cannot be
  had and when it is empty.  Otherwise the address at position \<^verbatim>\<open>rand.Intn(len(ips))\<close> of
  the list is taken, whatever its interface and version: every position is the choice of
  exactly the draws that name it, so the choice is as uniform as the draw.
\<close>

theorem handleProxy_random_egress:
  "X_Egress_IP r = [] \<longrightarrow>
     handleProxy_egress env None r = Inl StatusInternalServerError \<and>
     (GetAvailableIPs env c = None \<or> GetAvailableIPs env c = Some [] \<longrightarrow>
        handleProxy_egress env (Some c) r = Inl StatusInternalServerError) \<and>
     (GetAvailableIPs env c = Some ips \<and> ips \<noteq> [] \<longrightarrow>
        rand env mod length ips < length ips \<and>
        handleProxy_egress env (Some c) r =
          (case ParseIP env (IP (ips ! (rand env mod length ips))) of
             None \<Rightarrow> Inl StatusBadRequest
           | Some localIP \<Rightarrow> Inr (IP (ips ! (rand env mod length ips)), localIP)) \<and>
        (\<forall>i < length ips.
           handleProxy_egress (env\<lparr>rand := i\<rparr>) (Some c) r =
             (case ParseIP env (IP (ips ! i)) of
                None \<Rightarrow> Inl StatusBadRequest
              | Some localIP \<Rightarrow> Inr (IP (ips ! i), localIP))))"
proof (intro impI conjI allI)
  assume absent: "X_Egress_IP r = []"
  show "handleProxy_egress env None r = Inl StatusInternalServerError"
    using absent by (simp add: handleProxy_egress_def)
  show "handleProxy_egress env (Some c) r = Inl StatusInternalServerError"
    if "GetAvailableIPs env c = None \<or> GetAvailableIPs env c = Some []"
    using absent that by (auto simp: handleProxy_egress_def)
  assume ips: "GetAvailableIPs env c = Some ips \<and> ips \<noteq> []"
  show "rand env mod length ips < length ips"
    using ips by simp
  show "handleProxy_egress env (Some c) r =
          (case ParseIP env (IP (ips ! (rand env mod length ips))) of
             None \<Rightarrow> Inl StatusBadRequest
           | Some localIP \<Rightarrow> Inr (IP (ips ! (rand env mod length ips)), localIP))"
    using absent ips by (simp add: handleProxy_egress_def)
  show "handleProxy_egress (env\<lparr>rand := i\<rparr>) (Some c) r =
             (case ParseIP env (IP (ips ! i)) of
                None \<Rightarrow> Inl StatusBadRequest
              | Some localIP \<Rightarrow> Inr (IP (ips ! i), localIP))"
    if "i < length ips" for i
    using absent ips that by (simp add: handleProxy_egress_def GetAvailableIPs_rand)
qed

theorem handleProxy_random_egress_witness:
  "handleProxy_egress hostEnv None (request []) = Inl StatusInternalServerError \<and>
   handleProxy_egress hostEnv (Some \<lparr>AllowedInterfaces = [''eth1'']\<rparr>) (request []) =
     Inl StatusInternalServerError \<and>
   handleProxy_egress hostEnv (Some \<lparr>AllowedInterfaces = [''eth0'']\<rparr>) (request []) =
     Inr (''10.0.0.2'', 2) \<and>
   handleProxy_egress (hostEnv\<lparr>rand := 0\<rparr>) (Some \<lparr>AllowedInterfaces = [''eth0'']\<rparr>)
     (request []) = Inr (''10.0.0.1'', 1)"
proof -
  have absent: "X_Egress_IP (request []) = []"
    by (simp add: request_def)
  have 1: "handleProxy_egress hostEnv None (request []) = Inl StatusInternalServerError"
    using handleProxy_random_egress [where env = hostEnv and r = "request []"] absent
    by simp
  have 2: "handleProxy_egress hostEnv (Some \<lparr>AllowedInterfaces = [''eth1'']\<rparr>) (request []) =
      Inl StatusInternalServerError"
    using handleProxy_random_egress
      [where env = hostEnv and r = "request []" and c = "\<lparr>AllowedInterfaces = [''eth1'']\<rparr>"]
      absent GetAvailableIPs_hostEnv_none
    by simp
  let ?c = "\<lparr>AllowedInterfaces = [''eth0'']\<rparr>"
  let ?ips = "[\<lparr>Interface = ''eth0'', IP = ''10.0.0.1'', Version = 4\<rparr>,
               \<lparr>Interface = ''eth0'', IP = ''10.0.0.2'', Version = 4\<rparr>]"
  have sel: "handleProxy_egress hostEnv (Some ?c) (request []) =
        (case ParseIP hostEnv (IP (?ips ! (rand hostEnv mod length ?ips))) of
           None \<Rightarrow> Inl StatusBadRequest
         | Some localIP \<Rightarrow> Inr (IP (?ips ! (rand hostEnv mod length ?ips)), localIP))"
    and pos: "\<forall>i < length ?ips.
        handleProxy_egress (hostEnv\<lparr>rand := i\<rparr>) (Some ?c) (request []) =
          (case ParseIP hostEnv (IP (?ips ! i)) of
             None \<Rightarrow> Inl StatusBadRequest
           | Some localIP \<Rightarrow> Inr (IP (?ips ! i), localIP))"
    using handleProxy_random_egress
      [where env = hostEnv and r = "request []" and c = ?c and ips = ?ips]
      absent GetAvailableIPs_hostEnv
    by blast+
  have 3: "handleProxy_egress hostEnv (Some ?c) (request []) = Inr (''10.0.0.2'', 2)"
  proof -
    have len: "length ?ips = 2"
      by simp
    have "rand hostEnv mod length ?ips = 1"
      unfolding len by (simp add: hostEnv_def)
    then show ?thesis
      unfolding sel by (simp add: hostEnv_def)
  qed
  have 4: "handleProxy_egress (hostEnv\<lparr>rand := 0\<rparr>) (Some ?c) (request []) =
      Inr (''10.0.0.1'', 1)"
    using pos [rule_format, of 0] by (simp add: hostEnv_def)
  from 1 2 3 4 show ?thesis by simp
qed

theorem handleProxy_no_addresses_counterexample:
  "handleProxy_egress hostEnv (Some \<lparr>AllowedInterfaces = [''eth1'']\<rparr>) (request []) =
     Inl StatusInternalServerError \<and>
   fst (handleProxy hostEnv (Some \<lparr>AllowedInterfaces = [''eth1'']\<rparr>) NewStore emptyHeap 0 0 0
          (request [])) = Error 500 [] \<and>
   StatusInternalServerError \<noteq> StatusServiceUnavailable"
  by (simp add: handleProxy_def handleProxy_egress_def GetAvailableIPs_hostEnv_none request_def
      StatusInternalServerError_def StatusServiceUnavailable_def)

text \<open>
  C5 (what the code does).  With a configuration loaded, a header that does not parse as
  an address is answered Forbidden (403), not BadRequest: \<^verbatim>\<open>IsIPAllowed\<close> is asked first
  and says no to a string that does not parse, so the later test that answers 400 is
  not reached.  Without a configuration the same header is answered 400.  A header that
  parses and is not permitted is answered 403.
\<close>

theorem handleProxy_unparseable_header_with_config:
  "X_Egress_IP r \<noteq> [] \<longrightarrow>
     (ParseIP env (X_Egress_IP r) = None \<longrightarrow>
        \<not> IsIPAllowed env c (X_Egress_IP r) \<and>
        handleProxy_egress env (Some c) r = Inl StatusForbidden \<and>
        handleProxy env (Some c) s h now now' now'' r = (Error StatusForbidden [], s, h) \<and>
        handleProxy_egress env None r = Inl StatusBadRequest) \<and>
     (\<not> IsIPAllowed env c (X_Egress_IP r) \<longrightarrow>
        handleProxy_egress env (Some c) r = Inl StatusForbidden)"
proof (intro impI conjI)
  assume present: "X_Egress_IP r \<noteq> []"
  show forbidden: "handleProxy_egress env (Some c) r = Inl StatusForbidden"
    if "\<not> IsIPAllowed env c (X_Egress_IP r)"
    using present that by (simp add: handleProxy_egress_def)
  assume bad: "ParseIP env (X_Egress_IP r) = None"
  then show no: "\<not> IsIPAllowed env c (X_Egress_IP r)"
    by (simp add: IsIPAllowed_def)
  show "handleProxy_egress env (Some c) r = Inl StatusForbidden"
    using forbidden [OF no] .
  show "handleProxy env (Some c) s h now now' now'' r = (Error StatusForbidden [], s, h)"
    using forbidden [OF no] by (rule handleProxy_error)
  show "handleProxy_egress env None r = Inl StatusBadRequest"
    using present bad by (simp add: handleProxy_egress_def)
qed

theorem handleProxy_unparseable_header_with_config_witness:
  "handleProxy hostEnv (Some \<lparr>AllowedInterfaces = [''eth0'']\<rparr>) NewStore emptyHeap 0 0 0
     (request ''not-an-ip'') = (Error 403 [], NewStore, emptyHeap) \<and>
   handleProxy_egress hostEnv None (request ''not-an-ip'') = Inl 400 \<and>
   handleProxy_egress hostEnv (Some \<lparr>AllowedInterfaces = [''eth0'']\<rparr>)
     (request ''10.255.255.255'') = Inl 403"
proof -
  have present: "X_Egress_IP (request ''not-an-ip'') \<noteq> []"
    "X_Egress_IP (request ''10.255.255.255'') \<noteq> []"
    by (simp_all add: request_def)
  have bad: "ParseIP hostEnv (X_Egress_IP (request ''not-an-ip'')) = None"
    by (simp add: request_def hostEnv_def)
  have no: "\<not> IsIPAllowed hostEnv \<lparr>AllowedInterfaces = [''eth0'']\<rparr>
      (X_Egress_IP (request ''10.255.255.255''))"
    by (simp add: IsIPAllowed_def hostEnv_def request_def)
  show ?thesis
    using handleProxy_unparseable_header_with_config
      [where env = hostEnv and r = "request ''not-an-ip''"
         and c = "\<lparr>AllowedInterfaces = [''eth0'']\<rparr>" and s = NewStore and h = emptyHeap
         and now = 0 and now' = 0 and now'' = 0]
      handleProxy_unparseable_header_with_config
      [where env = hostEnv and r = "request ''10.255.255.255''"
         and c = "\<lparr>AllowedInterfaces = [''eth0'']\<rparr>"]
      present bad no
    by (simp add: StatusForbidden_def StatusBadRequest_def)
qed

end
